theory Spec2Isabelle
  imports Complex_Main "HOL-Library.Log_Nat"
begin

section \<open>Free-slot finder of calendar\_agent/calendar\_utils.py\<close>

text \<open>
  The development embeds \<^verbatim>\<open>get_event_time\<close> and \<^verbatim>\<open>find_free_slots\<close> of
  \<^verbatim>\<open>calendar_agent/calendar_utils.py\<close>.  Python's \<^verbatim>\<open>datetime\<close> class belongs to the
  standard library, not to the repository: its values are modelled by their position on the
  wall-clock time line, and its two string parsers are parameters of the model.
\<close>

subsection \<open>Datetime values\<close>

text \<open>
  A naive \<^verbatim>\<open>datetime\<close> is the number of microseconds between 0001-01-01T00:00:00 and its
  wall-clock reading; comparison and subtraction of naive datetimes are comparison and
  subtraction of these numbers.  A parsed \<^verbatim>\<open>datetime\<close> also carries \<^verbatim>\<open>tzinfo\<close>, the UTC
  offset in microseconds, or \<open>None\<close>.
\<close>

type_synonym naive = int

record datetime =
  wall :: naive
  tzinfo :: "int option"

definition us_second :: int where
  "us_second = 1000000"

definition us_hour :: int where
  "us_hour = 3600000000"

definition us_day :: int where
  "us_day = 86400000000"

datatype error = ValueError

text \<open>\<^verbatim>\<open>dt.replace(tzinfo=None)\<close>, guarded by \<^verbatim>\<open>dt.tzinfo is not None\<close>: the wall-clock
  reading is kept and the offset is forgotten, without conversion.\<close>

definition make_naive :: "datetime \<Rightarrow> naive" where
  "make_naive dt = (case tzinfo dt of None \<Rightarrow> wall dt | Some off \<Rightarrow> wall dt)"

text \<open>The attribute \<^verbatim>\<open>dt.hour\<close>.\<close>

definition hour :: "naive \<Rightarrow> int" where
  "hour t = (t div us_hour) mod 24"

text \<open>\<^verbatim>\<open>dt.replace(hour=h, minute=0, second=0)\<close>: date and microsecond are kept; an hour
  outside 0..23 raises \<^verbatim>\<open>ValueError\<close>.\<close>

definition replace_hour :: "naive \<Rightarrow> int \<Rightarrow> error + naive" where
  "replace_hour t h =
     (if 0 \<le> h \<and> h \<le> 23
      then Inr ((t div us_day) * us_day + h * us_hour + t mod us_second)
      else Inl ValueError)"

text \<open>\<^verbatim>\<open>dt.strftime("%Y-%m-%dT%H:%M:%SZ")\<close> prints the reading down to the second; the
  string is represented by the reading it denotes, the microseconds cut off.\<close>

definition strftime_Z :: "naive \<Rightarrow> naive" where
  "strftime_Z t = t - t mod us_second"

subsection \<open>Floating-point division\<close>

text \<open>
  The duration of a gap is \<^verbatim>\<open>int((gap_end - gap_start).total_seconds() / 60)\<close>.  Both
  divisions are done in binary64 arithmetic: \<^verbatim>\<open>total_seconds()\<close> is the number of
  microseconds divided by \<open>10\<^sup>6\<close>, rounded once; the division by 60 rounds again; \<^verbatim>\<open>int\<close>
  cuts towards zero.  \<open>binary64 x\<close> is the double nearest to the rational \<open>x\<close>, ties to the
  even significand, an exact rational again.  Every quotient of two datetimes is far from the
  overflow and the subnormal range, which are left out.
\<close>

definition round_half_even :: "rat \<Rightarrow> int" where
  "round_half_even x =
     (let f = \<lfloor>x\<rfloor>; d = x - of_int f
      in if d < 1 / 2 then f else if 1 / 2 < d then f + 1 else if even f then f else f + 1)"

text \<open>The exponent \<open>e\<close> with \<open>2\<^sup>e \<le> x < 2\<^sup>e\<^sup>+\<^sup>1\<close>, for positive \<open>x\<close>.\<close>

definition binade :: "rat \<Rightarrow> int" where
  "binade x = (if 1 \<le> x then bitlen \<lfloor>x\<rfloor> - 1 else - bitlen (\<lceil>1 / x\<rceil> - 1))"

definition binary64 :: "rat \<Rightarrow> rat" where
  "binary64 x =
     (if x = 0 then 0
      else let ulp = power_int 2 (binade \<bar>x\<bar> - 52)
           in sgn x * of_int (round_half_even (\<bar>x\<bar> / ulp)) * ulp)"

text \<open>\<^verbatim>\<open>int(x)\<close> on a float.\<close>

definition py_int :: "rat \<Rightarrow> int" where
  "py_int x = (if 0 \<le> x then \<lfloor>x\<rfloor> else \<lceil>x\<rceil>)"

text \<open>\<^verbatim>\<open>td.total_seconds()\<close> for a timedelta of \<open>us\<close> microseconds, and
  \<^verbatim>\<open>int(td.total_seconds() / 60)\<close>.\<close>

definition total_seconds :: "int \<Rightarrow> rat" where
  "total_seconds us = binary64 (of_int us / 1000000)"

definition total_minutes :: "int \<Rightarrow> int" where
  "total_minutes us = py_int (binary64 (total_seconds us / 60))"

subsection \<open>Timestamps as strings\<close>

text \<open>The two parsers of the standard library that the code calls:
  \<^verbatim>\<open>datetime.fromisoformat\<close> and \<^verbatim>\<open>datetime.strptime(_, "%Y-%m-%d")\<close>.  \<open>None\<close> stands for
  the \<^verbatim>\<open>ValueError\<close> both raise on a string they reject.\<close>

record datetime_lib =
  fromisoformat :: "string \<Rightarrow> datetime option"
  strptime_ymd :: "string \<Rightarrow> datetime option"

text \<open>\<^verbatim>\<open>s.replace("Z", "+00:00")\<close>: every occurrence is replaced.\<close>

definition replace_Z :: "string \<Rightarrow> string" where
  "replace_Z s = concat (map (\<lambda>c. if c = CHR ''Z'' then ''+00:00'' else [c]) s)"

subsection \<open>Events and free slots\<close>

text \<open>The \<^verbatim>\<open>start\<close> or \<^verbatim>\<open>end\<close> object of an event: a dictionary read at the keys
  \<^verbatim>\<open>dateTime\<close> and \<^verbatim>\<open>date\<close>.  An event is a dictionary read at \<^verbatim>\<open>start\<close> and \<^verbatim>\<open>end\<close>.\<close>

record event_datetime =
  dateTime :: "string option"
  date :: "string option"

record event =
  ev_start :: "event_datetime option"
  ev_end :: "event_datetime option"

record free_slot =
  slot_start :: naive
  slot_end :: naive
  duration_minutes :: int

text \<open>Python's \<^verbatim>\<open>x or y\<close> on values that are \<^verbatim>\<open>None\<close> or strings: \<^verbatim>\<open>None\<close> and the empty
  string are false.\<close>

fun get_event_time :: "event_datetime option \<Rightarrow> string" where
  "get_event_time None = []"
| "get_event_time (Some ed) =
     (case dateTime ed of
        Some (c # cs) \<Rightarrow> c # cs
      | _ \<Rightarrow> (case date ed of Some (c # cs) \<Rightarrow> c # cs | _ \<Rightarrow> []))"

text \<open>The body of the loop over \<^verbatim>\<open>events\<close> (lines 185 to 208): \<open>None\<close> is a record that is
  skipped by one of the two \<^verbatim>\<open>continue\<close> statements.\<close>

definition busy_period :: "datetime_lib \<Rightarrow> event \<Rightarrow> (naive \<times> naive) option" where
  "busy_period lib ev =
     (let start_str = get_event_time (ev_start ev);
          end_str = get_event_time (ev_end ev)
      in if start_str = [] \<or> end_str = [] then None
         else if CHR ''T'' \<notin> set start_str
         then (case strptime_ymd lib start_str of
                 None \<Rightarrow> None
               | Some start_dt \<Rightarrow>
                   (case strptime_ymd lib end_str of
                      None \<Rightarrow> None
                    | Some end_dt \<Rightarrow> Some (make_naive start_dt, make_naive end_dt)))
         else (case fromisoformat lib (replace_Z start_str) of
                 None \<Rightarrow> None
               | Some start_dt \<Rightarrow>
                   (case fromisoformat lib (replace_Z end_str) of
                      None \<Rightarrow> None
                    | Some end_dt \<Rightarrow> Some (make_naive start_dt, make_naive end_dt))))"

definition busy_periods :: "datetime_lib \<Rightarrow> event list \<Rightarrow> (naive \<times> naive) list" where
  "busy_periods lib events = sort_key fst (List.map_filter (busy_period lib) events)"

subsection \<open>The sweep\<close>

text \<open>The adjustment to working hours (lines 230 to 245, and again 265 to 277).
  \<open>Inr None\<close> is the branch that gives the gap up (\<^verbatim>\<open>continue\<close> in the loop,
  \<^verbatim>\<open>return free_slots\<close> after it).\<close>

definition adjust_working_hours ::
  "bool \<Rightarrow> int \<Rightarrow> int \<Rightarrow> naive \<Rightarrow> naive \<Rightarrow> error + (naive \<times> naive) option" where
  "adjust_working_hours working_hours_only working_start_hour working_end_hour gap_start gap_end =
     (if working_hours_only then
        (case (if hour gap_start < working_start_hour
               then map_sum id Some (replace_hour gap_start working_start_hour)
               else if hour gap_start \<ge> working_end_hour then Inr None
               else Inr (Some gap_start)) of
           Inl e \<Rightarrow> Inl e
         | Inr None \<Rightarrow> Inr None
         | Inr (Some gap_start') \<Rightarrow>
             (if hour gap_end \<ge> working_end_hour
              then (case replace_hour gap_end working_end_hour of
                      Inl e \<Rightarrow> Inl e
                    | Inr gap_end' \<Rightarrow> Inr (Some (gap_start', gap_end')))
              else if hour gap_end < working_start_hour then Inr None
              else Inr (Some (gap_start', gap_end))))
      else Inr (Some (gap_start, gap_end)))"

text \<open>The duration check and the append (lines 248 to 255, and again 279 to 286): the
  slots added to \<^verbatim>\<open>free_slots\<close>, none or one.\<close>

definition emit_slot :: "int \<Rightarrow> naive \<Rightarrow> naive \<Rightarrow> free_slot list" where
  "emit_slot min_duration_minutes gap_start gap_end =
     (if gap_end > gap_start then
        (let duration = total_minutes (gap_end - gap_start)
         in if duration \<ge> min_duration_minutes
            then [\<lparr>slot_start = strftime_Z gap_start, slot_end = strftime_Z gap_end,
                   duration_minutes = duration\<rparr>]
            else [])
      else [])"

text \<open>The loop over the sorted busy periods (lines 223 to 258), from the state
  \<open>(free_slots, current_time)\<close> to the state after the last period.  A \<^verbatim>\<open>continue\<close>
  leaves the iteration before \<^verbatim>\<open>current_time\<close> is moved.\<close>

fun sweep ::
  "int \<Rightarrow> bool \<Rightarrow> int \<Rightarrow> int \<Rightarrow> naive \<Rightarrow> (naive \<times> naive) list \<Rightarrow> free_slot list \<Rightarrow> naive
     \<Rightarrow> error + (free_slot list \<times> naive)" where
  "sweep m who wsh weh range_end [] free_slots current_time = Inr (free_slots, current_time)"
| "sweep m who wsh weh range_end ((busy_start, busy_end) # rest) free_slots current_time =
     (if busy_start > current_time then
        (case adjust_working_hours who wsh weh current_time (min busy_start range_end) of
           Inl e \<Rightarrow> Inl e
         | Inr None \<Rightarrow> sweep m who wsh weh range_end rest free_slots current_time
         | Inr (Some (gap_start, gap_end)) \<Rightarrow>
             sweep m who wsh weh range_end rest
               (free_slots @ emit_slot m gap_start gap_end) (max current_time busy_end))
      else sweep m who wsh weh range_end rest free_slots (max current_time busy_end))"

text \<open>The gap after the last event (lines 261 to 288).\<close>

definition final_gap ::
  "int \<Rightarrow> bool \<Rightarrow> int \<Rightarrow> int \<Rightarrow> naive \<Rightarrow> free_slot list \<Rightarrow> naive \<Rightarrow> error + free_slot list" where
  "final_gap m who wsh weh range_end free_slots current_time =
     (if current_time < range_end then
        (case adjust_working_hours who wsh weh current_time range_end of
           Inl e \<Rightarrow> Inl e
         | Inr None \<Rightarrow> Inr free_slots
         | Inr (Some (gap_start, gap_end)) \<Rightarrow> Inr (free_slots @ emit_slot m gap_start gap_end))
      else Inr free_slots)"

definition find_free_slots ::
  "datetime_lib \<Rightarrow> event list \<Rightarrow> string \<Rightarrow> string \<Rightarrow> int \<Rightarrow> bool \<Rightarrow> int \<Rightarrow> int
     \<Rightarrow> error + free_slot list" where
  "find_free_slots lib events time_min time_max min_duration_minutes working_hours_only
       working_start_hour working_end_hour =
     (case fromisoformat lib (replace_Z time_min) of
        None \<Rightarrow> Inr []
      | Some range_start \<Rightarrow>
          (case fromisoformat lib (replace_Z time_max) of
             None \<Rightarrow> Inr []
           | Some range_end \<Rightarrow>
               (case sweep min_duration_minutes working_hours_only working_start_hour
                        working_end_hour (make_naive range_end) (busy_periods lib events) []
                        (make_naive range_start) of
                  Inl e \<Rightarrow> Inl e
                | Inr (free_slots, current_time) \<Rightarrow>
                    final_gap min_duration_minutes working_hours_only working_start_hour
                      working_end_hour (make_naive range_end) free_slots current_time)))"

subsection \<open>A concrete parser for the RFC 3339 shapes\<close>

text \<open>
  The shapes \<^verbatim>\<open>YYYY-MM-DD\<close> and \<^verbatim>\<open>YYYY-MM-DDTHH:MM:SS\<close>, the latter with an optional
  offset \<^verbatim>\<open>+HH:MM\<close> or \<^verbatim>\<open>-HH:MM\<close>, read as the standard library reads them (proleptic
  Gregorian calendar, day 1 is 0001-01-01).  The library accepts further shapes; the
  theorems below hold for every pair of parsers, and this pair supplies concrete inputs.
\<close>

definition digit :: "char \<Rightarrow> int option" where
  "digit c = (let n = (of_char c :: nat) in if 48 \<le> n \<and> n \<le> 57 then Some (int n - 48) else None)"

fun digits_acc :: "int \<Rightarrow> string \<Rightarrow> int option" where
  "digits_acc acc [] = Some acc"
| "digits_acc acc (c # cs) =
     (case digit c of None \<Rightarrow> None | Some d \<Rightarrow> digits_acc (10 * acc + d) cs)"

definition number :: "string \<Rightarrow> int option" where
  "number s = (if s = [] then None else digits_acc 0 s)"

definition is_leap :: "int \<Rightarrow> bool" where
  "is_leap y = (y mod 4 = 0 \<and> (y mod 100 \<noteq> 0 \<or> y mod 400 = 0))"

definition days_in_month :: "int \<Rightarrow> int \<Rightarrow> int" where
  "days_in_month y m =
     (if m = 2 then (if is_leap y then 29 else 28)
      else if m = 4 \<or> m = 6 \<or> m = 9 \<or> m = 11 then 30 else 31)"

definition days_before_year :: "int \<Rightarrow> int" where
  "days_before_year y = (y - 1) * 365 + (y - 1) div 4 - (y - 1) div 100 + (y - 1) div 400"

definition days_before_month :: "int \<Rightarrow> int \<Rightarrow> int" where
  "days_before_month y m = sum_list (map (days_in_month y) [1..m - 1])"

definition ymd2ord :: "int \<Rightarrow> int \<Rightarrow> int \<Rightarrow> int" where
  "ymd2ord y m d = days_before_year y + days_before_month y m + d"

definition parse_date :: "string \<Rightarrow> naive option" where
  "parse_date s =
     (if length s = 10 \<and> s ! 4 = CHR ''-'' \<and> s ! 7 = CHR ''-'' then
        (case (number (take 4 s), number (take 2 (drop 5 s)), number (drop 8 s)) of
           (Some y, Some m, Some d) \<Rightarrow>
             (if 1 \<le> y \<and> 1 \<le> m \<and> m \<le> 12 \<and> 1 \<le> d \<and> d \<le> days_in_month y m
              then Some ((ymd2ord y m d - 1) * us_day) else None)
         | _ \<Rightarrow> None)
      else None)"

definition parse_time :: "string \<Rightarrow> int option" where
  "parse_time s =
     (if length s = 8 \<and> s ! 2 = CHR '':'' \<and> s ! 5 = CHR '':'' then
        (case (number (take 2 s), number (take 2 (drop 3 s)), number (drop 6 s)) of
           (Some h, Some mi, Some sec) \<Rightarrow>
             (if h < 24 \<and> mi < 60 \<and> sec < 60
              then Some (h * us_hour + (mi * 60 + sec) * us_second) else None)
         | _ \<Rightarrow> None)
      else None)"

definition parse_offset :: "string \<Rightarrow> int option option" where
  "parse_offset s =
     (if s = [] then Some None
      else if length s = 6 \<and> (s ! 0 = CHR ''+'' \<or> s ! 0 = CHR ''-'') \<and> s ! 3 = CHR '':'' then
        (case (number (take 2 (drop 1 s)), number (drop 4 s)) of
           (Some h, Some mi) \<Rightarrow>
             (if h < 24 \<and> mi < 60
              then Some (Some ((if s ! 0 = CHR ''-'' then - 1 else 1)
                                * ((h * 60 + mi) * 60 * us_second)))
              else None)
         | _ \<Rightarrow> None)
      else None)"

definition fromisoformat_rfc3339 :: "string \<Rightarrow> datetime option" where
  "fromisoformat_rfc3339 s =
     (case parse_date (take 10 s) of
        None \<Rightarrow> None
      | Some d \<Rightarrow>
          (if length s = 10 then Some \<lparr>wall = d, tzinfo = None\<rparr>
           else if s ! 10 \<noteq> CHR ''T'' then None
           else (case parse_time (take 8 (drop 11 s)) of
                   None \<Rightarrow> None
                 | Some t \<Rightarrow>
                     (case parse_offset (drop 19 s) of
                        None \<Rightarrow> None
                      | Some off \<Rightarrow> Some \<lparr>wall = d + t, tzinfo = off\<rparr>))))"

definition strptime_ymd_rfc3339 :: "string \<Rightarrow> datetime option" where
  "strptime_ymd_rfc3339 s = map_option (\<lambda>d. \<lparr>wall = d, tzinfo = None\<rparr>) (parse_date s)"

definition rfc3339_lib :: datetime_lib where
  "rfc3339_lib = \<lparr>fromisoformat = fromisoformat_rfc3339, strptime_ymd = strptime_ymd_rfc3339\<rparr>"

subsection \<open>Notions used in the statements\<close>

text \<open>A timed event, as the calendar source delivers it.\<close>

definition ev_timed :: "string \<Rightarrow> string \<Rightarrow> event" where
  "ev_timed s e = \<lparr>ev_start = Some \<lparr>dateTime = Some s, date = None\<rparr>,
                   ev_end = Some \<lparr>dateTime = Some e, date = None\<rparr>\<rparr>"

text \<open>A timestamp that neither parser reads, and a malformed record in the words of the
  specification: a boundary is missing, or a timestamp is unparseable.\<close>

definition unparseable :: "datetime_lib \<Rightarrow> string \<Rightarrow> bool" where
  "unparseable lib s \<longleftrightarrow> fromisoformat lib (replace_Z s) = None \<and> strptime_ymd lib s = None"

definition malformed_record :: "datetime_lib \<Rightarrow> event \<Rightarrow> bool" where
  "malformed_record lib ev \<longleftrightarrow>
     get_event_time (ev_start ev) = [] \<or> get_event_time (ev_end ev) = []
     \<or> unparseable lib (get_event_time (ev_start ev))
     \<or> unparseable lib (get_event_time (ev_end ev))"

text \<open>Results are compared under a function applied to the list a call returns.\<close>

definition map_result :: "('a \<Rightarrow> 'b) \<Rightarrow> error + 'a \<Rightarrow> error + 'b" where
  "map_result f r = (case r of Inl e \<Rightarrow> Inl e | Inr x \<Rightarrow> Inr (f x))"

text \<open>The start of a gap after the adjustment to working hours, when the gap is kept.\<close>

definition adjusted_start :: "bool \<Rightarrow> int \<Rightarrow> naive \<Rightarrow> naive" where
  "adjusted_start who wsh t =
     (if who \<and> hour t < wsh \<and> 0 \<le> wsh \<and> wsh \<le> 23
      then (t div us_day) * us_day + wsh * us_hour + t mod us_second else t)"

text \<open>The duration in the words of the specification: the length of the gap in minutes,
  rounded to the nearest integer.\<close>

definition spec_duration_minutes :: "naive \<Rightarrow> naive \<Rightarrow> int" where
  "spec_duration_minutes gap_start gap_end =
     round (real_of_int (gap_end - gap_start) / 1000000 / 60)"

text \<open>The instant of a parsed timestamp in the words of the specification: a timestamp
  that bears an offset is normalised to UTC, the offset subtracted from its wall-clock
  reading; a timestamp without offset is read as it stands.\<close>

definition utc_offset :: "datetime \<Rightarrow> int" where
  "utc_offset dt = (case tzinfo dt of None \<Rightarrow> 0 | Some off \<Rightarrow> off)"

definition spec_utc :: "datetime \<Rightarrow> naive" where
  "spec_utc dt = wall dt - utc_offset dt"

text \<open>Readings on 2024-01-15, the day of the repository's tests (day 738900 of the
  calendar).\<close>

definition jan15 :: "int \<Rightarrow> int \<Rightarrow> int \<Rightarrow> naive" where
  "jan15 h mi s = 738899 * us_day + h * us_hour + (mi * 60 + s) * us_second"



section \<open>Properties\<close>

subsection \<open>Parsing\<close>

lemma make_naive_wall [simp]: "make_naive dt = wall dt"
  by (simp add: make_naive_def split: option.splits)

lemma parse_invalid: "fromisoformat rfc3339_lib (replace_Z ''invalid'') = None"
  by code_simp

text \<open>
  C6.  When \<^verbatim>\<open>time_min\<close> or \<^verbatim>\<open>time_max\<close> is rejected by \<^verbatim>\<open>fromisoformat\<close>, the result
  is the empty list and nothing is raised, whatever the events, the minimum duration and
  the working hours are.
\<close>

theorem find_free_slots_bad_window:
  "fromisoformat lib (replace_Z time_min) = None \<or> fromisoformat lib (replace_Z time_max) = None
   \<Longrightarrow> find_free_slots lib events time_min time_max m who wsh weh = Inr []"
  by (auto simp: find_free_slots_def split: option.splits)

theorem find_free_slots_bad_window_witness:
  "fromisoformat rfc3339_lib (replace_Z ''invalid'') = None
   \<and> find_free_slots rfc3339_lib [] ''invalid'' ''invalid'' 30 True 9 17 = Inr []"
  using find_free_slots_bad_window [of rfc3339_lib "''invalid''" "''invalid''" "[]" 30 True 9 17]
    parse_invalid by simp

lemma malformed_skipped: "malformed_record lib ev \<Longrightarrow> busy_period lib ev = None"
  by (auto simp: malformed_record_def unparseable_def busy_period_def Let_def
      split: option.splits)

lemma map_filter_skip:
  "f r = None \<Longrightarrow> List.map_filter f (xs @ r # ys) = List.map_filter f (xs @ ys)"
  by (simp add: List.map_filter_def)

lemma busy_periods_skip:
  "busy_period lib r = None \<Longrightarrow> busy_periods lib (xs @ r # ys) = busy_periods lib (xs @ ys)"
  by (simp add: busy_periods_def map_filter_skip)

text \<open>
  C7.  A malformed record, at any position of the event list, does not change the result:
  the list with the record and the list without it give the same output.
\<close>

theorem malformed_record_ignored:
  assumes "malformed_record lib r"
  shows "find_free_slots lib (xs @ r # ys) time_min time_max m who wsh weh
       = find_free_slots lib (xs @ ys) time_min time_max m who wsh weh"
  unfolding find_free_slots_def busy_periods_skip [OF malformed_skipped [OF assms]] ..

theorem malformed_record_ignored_witness:
  "malformed_record rfc3339_lib
     \<lparr>ev_start = Some \<lparr>dateTime = Some ''2024-01-15T10:00:00Z'', date = None\<rparr>, ev_end = None\<rparr>
   \<and> find_free_slots rfc3339_lib
        [ev_timed ''2024-01-15T12:00:00Z'' ''2024-01-15T13:00:00Z'',
         \<lparr>ev_start = Some \<lparr>dateTime = Some ''2024-01-15T10:00:00Z'', date = None\<rparr>,
          ev_end = None\<rparr>]
        ''2024-01-15T09:00:00Z'' ''2024-01-15T17:00:00Z'' 30 False 9 17
     = find_free_slots rfc3339_lib [ev_timed ''2024-01-15T12:00:00Z'' ''2024-01-15T13:00:00Z'']
        ''2024-01-15T09:00:00Z'' ''2024-01-15T17:00:00Z'' 30 False 9 17"
  using malformed_record_ignored [of rfc3339_lib
      "\<lparr>ev_start = Some \<lparr>dateTime = Some ''2024-01-15T10:00:00Z'', date = None\<rparr>,
        ev_end = None\<rparr>"
      "[ev_timed ''2024-01-15T12:00:00Z'' ''2024-01-15T13:00:00Z'']" "[]"]
  by (simp add: malformed_record_def)

subsection \<open>Clock arithmetic\<close>

lemma us_day_hour: "us_day = 24 * us_hour"
  by (simp add: us_day_def us_hour_def)

lemma us_pos: "0 < us_second" "0 < us_hour" "0 < us_day"
  by (simp_all add: us_second_def us_hour_def us_day_def)

lemma hour_eq: "hour t = (t mod us_day) div us_hour"
proof -
  have "(t div us_hour) mod 24 = (t mod (us_hour * 24)) div us_hour"
    using us_pos(2) by (simp add: mod_mult2_eq' zmod_zmult2_eq)
  thus ?thesis by (simp add: hour_def us_day_hour mult.commute)
qed

lemma int_div_less_iff: "0 < q \<Longrightarrow> (a div q < n) = (a < n * q)" for a q n :: int
proof
  assume q: "0 < q" and "a div q < n"
  then have "(a div q + 1) * q \<le> n * q" by (simp only: mult_right_mono zless_imp_add1_zle less_imp_le)
  then have "(a div q) * q + q \<le> n * q" by (simp add: algebra_simps)
  moreover have "a = (a div q) * q + a mod q" by simp
  moreover have "a mod q < q" using q by simp
  ultimately show "a < n * q" by linarith
next
  assume q: "0 < q" and "a < n * q"
  show "a div q < n"
  proof (rule ccontr)
    assume "\<not> a div q < n"
    then have "n * q \<le> (a div q) * q" using q by (simp only: mult_right_mono not_less less_imp_le)
    moreover have "a = (a div q) * q + a mod q" by simp
    moreover have "0 \<le> a mod q" using q by simp
    ultimately show False using \<open>a < n * q\<close> by linarith
  qed
qed

lemma hour_less_iff: "hour t < w \<longleftrightarrow> t mod us_day < w * us_hour"
  by (simp add: hour_eq int_div_less_iff us_pos)

lemma tod_range: "0 \<le> t mod us_day" "t mod us_day < us_day"
  using us_pos(3) by simp_all

lemma mod_second_day: "(d * us_day + r) mod us_second = r mod us_second"
proof -
  have "d * us_day = (d * 86400) * us_second" by (simp add: us_day_def us_second_def)
  thus ?thesis by (simp only: mod_mult_self3)
qed

lemma mod_second_hour: "(h * us_hour + r) mod us_second = r mod us_second"
proof -
  have "h * us_hour = (h * 3600) * us_second" by (simp add: us_hour_def us_second_def)
  thus ?thesis by (simp only: mod_mult_self3)
qed

lemma sec_range: "0 \<le> t mod us_second" "t mod us_second < us_second"
  using us_pos(1) by simp_all

text \<open>Printing to the second.\<close>

lemma strftime_Z_le: "strftime_Z t \<le> t"
  by (simp add: strftime_Z_def sec_range)

lemma strftime_Z_mult: "strftime_Z t = (t div us_second) * us_second"
  by (simp add: strftime_Z_def minus_mod_eq_div_mult)

lemma strftime_Z_mono: "s \<le> t \<Longrightarrow> strftime_Z s \<le> strftime_Z t"
  using us_pos(1) by (simp add: strftime_Z_mult zdiv_mono1)

lemma strftime_Z_whole: "t mod us_second = 0 \<Longrightarrow> strftime_Z t = t"
  by (simp add: strftime_Z_def)

lemma strftime_Z_replaced:
  "strftime_Z (d * us_day + h * us_hour + t mod us_second) = d * us_day + h * us_hour"
proof -
  have "(d * us_day + (h * us_hour + t mod us_second)) mod us_second = t mod us_second"
    by (simp only: mod_second_day mod_second_hour) simp
  thus ?thesis by (simp add: strftime_Z_def add.assoc)
qed

lemma whole_second_day_hour: "(d * us_day + h * us_hour) mod us_second = 0"
  using mod_second_day [of d "h * us_hour"] mod_second_hour [of h 0] by simp

lemma replace_hour_forward:
  assumes "hour t < h" "replace_hour t h = Inr t'"
  shows "t < t'"
proof -
  have "t mod us_day < h * us_hour" using assms(1) by (simp add: hour_less_iff)
  moreover have "t = (t div us_day) * us_day + t mod us_day" by simp
  moreover have "t' = (t div us_day) * us_day + h * us_hour + t mod us_second"
    using assms(2) by (simp add: replace_hour_def split: if_splits)
  moreover have "0 \<le> t mod us_second" by (rule sec_range)
  ultimately show ?thesis by linarith
qed

lemma tod_second: "t mod us_second = (t mod us_day) mod us_second"
  using mod_second_day [of "t div us_day" "t mod us_day"] by simp

lemma tod_hour_split: "t mod us_day = hour t * us_hour + (t mod us_day) mod us_hour"
  by (simp add: hour_eq)

lemma second_le_hour_rest: "t mod us_second \<le> (t mod us_day) mod us_hour"
proof -
  have "t mod us_second = ((t mod us_day) mod us_hour) mod us_second"
    using mod_second_hour [of "hour t" "(t mod us_day) mod us_hour"] tod_hour_split [of t]
      tod_second [of t] by simp
  also have "\<dots> \<le> (t mod us_day) mod us_hour"
    using us_pos by (simp add: zmod_le_nonneg_dividend)
  finally show ?thesis .
qed

lemma replace_hour_backward:
  assumes "h \<le> hour t" "replace_hour t h = Inr t'"
  shows "t' \<le> t"
proof -
  have "h * us_hour \<le> hour t * us_hour" using assms(1) us_pos(2) by simp
  moreover have "t = (t div us_day) * us_day + t mod us_day" by simp
  moreover have "t' = (t div us_day) * us_day + h * us_hour + t mod us_second"
    using assms(2) by (simp add: replace_hour_def split: if_splits)
  moreover note tod_hour_split [of t] second_le_hour_rest [of t]
  ultimately show ?thesis by linarith
qed

lemma adjusted_start_mono:
  assumes "s \<le> t"
  shows "strftime_Z (adjusted_start who wsh s) \<le> strftime_Z (adjusted_start who wsh t)"
proof (cases "who \<and> 0 \<le> wsh \<and> wsh \<le> 23")
  case False
  then show ?thesis using assms by (auto simp: adjusted_start_def strftime_Z_mono)
next
  case True
  define W where "W = wsh * us_hour"
  have W: "0 \<le> W" "W < us_day" using True us_pos by (simp_all add: W_def us_day_hour)
  have whole: "\<And>d. (d * us_day + W) mod us_second = 0"
    by (simp add: W_def whole_second_day_hour)
  have dd: "s div us_day \<le> t div us_day" using assms us_pos(3) by (simp add: zdiv_mono1)
  have ss: "s = (s div us_day) * us_day + s mod us_day" and tt: "t = (t div us_day) * us_day + t mod us_day"
    by simp_all
  have A: "adjusted_start who wsh s = (if s mod us_day < W then (s div us_day) * us_day + W + s mod us_second else s)"
    using True by (simp add: adjusted_start_def hour_less_iff W_def)
  have B: "adjusted_start who wsh t = (if t mod us_day < W then (t div us_day) * us_day + W + t mod us_second else t)"
    using True by (simp add: adjusted_start_def hour_less_iff W_def)
  have R: "\<And>d x. strftime_Z (d * us_day + W + x mod us_second) = d * us_day + W"
    by (simp add: W_def strftime_Z_replaced)
  show ?thesis
  proof (cases "s mod us_day < W")
    case sT: True
    show ?thesis
    proof (cases "t mod us_day < W")
      case True
      then show ?thesis using sT dd us_pos(3) by (simp add: A B R)
    next
      case False
      have "(s div us_day) * us_day + W \<le> t"
      proof (cases "s div us_day = t div us_day")
        case True
        then have "t = (s div us_day) * us_day + t mod us_day" using tt by simp
        then show ?thesis using False by linarith
      next
        case False
        then have "s div us_day + 1 \<le> t div us_day" using dd by simp
        then have "(s div us_day + 1) * us_day \<le> (t div us_day) * us_day"
          using us_pos(3) by (simp only: mult_right_mono less_imp_le)
        then have "(s div us_day) * us_day + us_day \<le> (t div us_day) * us_day"
          by (simp add: algebra_simps)
        then show ?thesis using W tt tod_range [of t] by linarith
      qed
      then have "strftime_Z ((s div us_day) * us_day + W) \<le> strftime_Z t"
        by (rule strftime_Z_mono)
      then show ?thesis using sT False by (simp add: A B R strftime_Z_whole whole)
    qed
  next
    case sF: False
    show ?thesis
    proof (cases "t mod us_day < W")
      case True
      have "s div us_day \<noteq> t div us_day"
      proof
        assume "s div us_day = t div us_day"
        then have "t = (s div us_day) * us_day + t mod us_day" using tt by simp
        then have "s mod us_day \<le> t mod us_day" using assms ss by linarith
        then show False using sF True by simp
      qed
      then have "s div us_day + 1 \<le> t div us_day" using dd by simp
      then have "(s div us_day + 1) * us_day \<le> (t div us_day) * us_day"
        using us_pos(3) by (simp only: mult_right_mono less_imp_le)
      then have "(s div us_day) * us_day + us_day \<le> (t div us_day) * us_day"
        by (simp add: algebra_simps)
      then have "s \<le> (t div us_day) * us_day + W"
        using W ss tod_range [of s] by linarith
      then have "strftime_Z s \<le> strftime_Z ((t div us_day) * us_day + W)"
        by (rule strftime_Z_mono)
      then show ?thesis using sF True by (simp add: A B R strftime_Z_whole whole)
    next
      case False
      then show ?thesis using sF assms by (simp add: A B strftime_Z_mono)
    qed
  qed
qed

subsection \<open>Rounding\<close>

lemma round_half_even_lower: "\<lfloor>x\<rfloor> \<le> round_half_even x"
  by (simp add: round_half_even_def Let_def)

lemma round_half_even_upper: "round_half_even x \<le> \<lceil>x\<rceil>"
proof (cases "x - of_int \<lfloor>x\<rfloor> < 1 / 2")
  case True
  then show ?thesis by (simp add: round_half_even_def Let_def floor_le_ceiling)
next
  case False
  then have "of_int \<lfloor>x\<rfloor> < x" by simp
  then have "\<lfloor>x\<rfloor> < \<lceil>x\<rceil>" by (simp add: floor_less_iff less_ceiling_iff)
  then show ?thesis by (simp add: round_half_even_def Let_def)
qed

lemma binade_bounds:
  assumes "0 < x"
  shows "power_int 2 (binade x) \<le> x" and "x < power_int 2 (binade x + 1)"
proof -
  have "power_int 2 (binade x) \<le> x \<and> x < power_int 2 (binade x + 1)"
  proof (cases "1 \<le> x")
    case True
    define n where "n = \<lfloor>x\<rfloor>"
    have n: "0 < n" using True by (simp add: n_def)
    have b: "1 \<le> bitlen n" using n by (simp add: bitlen_ge_iff_power)
    have e: "binade x = bitlen n - 1" using True by (simp add: binade_def n_def)
    have i: "2 ^ nat (bitlen n - 1) \<le> n" "n + 1 \<le> 2 ^ nat (bitlen n)"
      using bitlen_bounds [OF n] by simp_all
    have "(of_int (2 ^ nat (bitlen n - 1)) :: rat) \<le> of_int n"
      using i(1) by (simp only: of_int_le_iff)
    then have lo: "(2::rat) ^ nat (bitlen n - 1) \<le> of_int n" by simp
    have "(of_int (n + 1) :: rat) \<le> of_int (2 ^ nat (bitlen n))"
      using i(2) by (simp only: of_int_le_iff)
    then have hi: "of_int n + 1 \<le> (2::rat) ^ nat (bitlen n)" by simp
    have "of_int n \<le> x" "x < of_int n + 1" using floor_correct [of x] by (simp_all add: n_def)
    with lo hi have "(2::rat) ^ nat (bitlen n - 1) \<le> x" "x < (2::rat) ^ nat (bitlen n)"
      by linarith+
    then show ?thesis using b by (simp add: e power_int_def)
  next
    case False
    define c where "c = \<lceil>1 / x\<rceil>"
    have y: "1 < 1 / x" using False assms by simp
    then have c2: "0 < c - 1" by (simp add: c_def less_ceiling_iff)
    define k where "k = bitlen (c - 1)"
    have k1: "1 \<le> k" using c2 by (simp add: k_def bitlen_ge_iff_power)
    have e: "binade x = - k" using False by (simp add: binade_def c_def k_def)
    have i: "2 ^ nat (k - 1) \<le> c - 1" "c \<le> 2 ^ nat k"
      using bitlen_bounds [OF c2] by (simp_all add: k_def)
    have "(of_int (2 ^ nat (k - 1)) :: rat) \<le> of_int (c - 1)"
      using i(1) by (simp only: of_int_le_iff)
    then have lo: "(2::rat) ^ nat (k - 1) \<le> of_int c - 1" by simp
    have "(of_int c :: rat) \<le> of_int (2 ^ nat k)"
      using i(2) by (simp only: of_int_le_iff)
    then have hi: "of_int c \<le> (2::rat) ^ nat k" by simp
    have "1 / x \<le> of_int c" "of_int c - 1 < 1 / x"
      using ceiling_correct [of "1 / x"] by (simp_all add: c_def)
    with lo hi have A: "1 / x \<le> (2::rat) ^ nat k" and B: "(2::rat) ^ nat (k - 1) < 1 / x"
      by linarith+
    have "1 / (2::rat) ^ nat k \<le> x" using A assms by (simp add: field_simps)
    moreover have "x < 1 / (2::rat) ^ nat (k - 1)" using B assms by (simp add: field_simps)
    moreover have "power_int (2::rat) (- k) = 1 / 2 ^ nat k"
      using k1 by (simp add: power_int_minus power_int_nonneg_exp inverse_eq_divide)
    moreover have "power_int (2::rat) (- k + 1) = 1 / 2 ^ nat (k - 1)"
      using k1 power_int_minus [of "2::rat" "k - 1"]
      by (simp add: power_int_nonneg_exp inverse_eq_divide)
    ultimately show ?thesis by (simp add: e)
  qed
  then show "power_int 2 (binade x) \<le> x" and "x < power_int 2 (binade x + 1)" by simp_all
qed


lemma power_int_2_pos: "0 < power_int (2::rat) e"
  by (simp add: power_int_def)

lemma power_int_2_split: "power_int (2::rat) (a + b) = power_int 2 a * power_int 2 b"
  by (simp add: power_int_add)

text \<open>Dyadic numbers with a 53-bit numerator bracket the rounding.\<close>

lemma binary64_bracket:
  assumes x: "0 < x" and n: "0 \<le> n" "n < 2 ^ 53"
  shows "of_int n * power_int 2 j \<le> x \<Longrightarrow> of_int n * power_int 2 j \<le> binary64 x"
    and "x \<le> of_int n * power_int 2 j \<Longrightarrow> binary64 x \<le> of_int n * power_int 2 j"
proof -
  define e where "e = binade x - 52"
  define u :: rat where "u = power_int 2 e"
  define y where "y = x / u"
  have u: "0 < u" by (simp add: u_def power_int_2_pos)
  have xy: "x = y * u" using u by (simp add: y_def)
  have fl: "binary64 x = of_int (round_half_even y) * u"
    using x by (simp add: binary64_def Let_def e_def u_def y_def)
  have "power_int 2 (binade x) = 2 ^ 52 * u"
    using power_int_2_split [of 52 e] by (simp add: e_def u_def)
  then have ylo: "2 ^ 52 \<le> y" using binade_bounds(1) [OF x] u by (simp add: y_def field_simps)
  have "(of_int (2 ^ 52) :: rat) \<le> y" using ylo by simp
  then have flo: "2 ^ 52 \<le> \<lfloor>y\<rfloor>" by (simp only: le_floor_iff)
  have small: "of_int n * power_int 2 j < 2 ^ 52 * u" if "j < e"
  proof -
    have "power_int (2::rat) j \<le> power_int 2 (e - 1)"
      using that by (simp add: power_int_increasing)
    moreover have "power_int (2::rat) e = power_int 2 (e - 1) * 2"
      using power_int_2_split [of "e - 1" 1] by simp
    ultimately have "2 * power_int (2::rat) j \<le> u" by (simp add: u_def)
    then have "2 ^ 52 * (2 * power_int (2::rat) j) \<le> 2 ^ 52 * u"
      by (simp only: mult_le_cancel_left_pos zero_less_power zero_less_numeral)
    then have A: "2 ^ 53 * power_int (2::rat) j \<le> 2 ^ 52 * u" by simp
    have "(of_int n :: rat) < of_int (2 ^ 53)" using n(2) by (simp only: of_int_less_iff)
    then have "(of_int n :: rat) < 2 ^ 53" by simp
    then have "of_int n * power_int (2::rat) j < 2 ^ 53 * power_int 2 j"
      using power_int_2_pos [of j] by (simp only: mult_less_cancel_right_pos)
    then show ?thesis using A by (rule less_le_trans)
  qed
  have big: "\<exists>N::int. of_int n * power_int (2::rat) j = of_int N * u" if "e \<le> j"
  proof -
    have "power_int (2::rat) j = power_int 2 (j - e) * u"
      using power_int_2_split [of "j - e" e] by (simp add: u_def)
    also have "power_int (2::rat) (j - e) = of_int (2 ^ nat (j - e))"
      using that by (simp add: power_int_nonneg_exp)
    finally have "of_int n * power_int (2::rat) j = of_int (n * 2 ^ nat (j - e)) * u" by simp
    then show ?thesis by blast
  qed
  have lowfl: "of_int \<lfloor>y\<rfloor> * u \<le> binary64 x"
    using round_half_even_lower [of y] u by (simp add: fl)
  have upfl: "binary64 x \<le> of_int \<lceil>y\<rceil> * u"
    using round_half_even_upper [of y] u by (simp add: fl)
  show "of_int n * power_int 2 j \<le> binary64 x" if le: "of_int n * power_int 2 j \<le> x"
  proof (cases "e \<le> j")
    case True
    then obtain N :: int where N: "of_int n * power_int (2::rat) j = of_int N * u" using big by blast
    then have "of_int N \<le> y" using le u by (simp add: xy)
    then have "N \<le> \<lfloor>y\<rfloor>" by (simp only: le_floor_iff)
    then have "(of_int N :: rat) * u \<le> of_int \<lfloor>y\<rfloor> * u" using u by simp
    then show ?thesis using N lowfl by simp
  next
    case False
    then have "of_int n * power_int 2 j < 2 ^ 52 * u" using small by simp
    moreover have "(of_int (2 ^ 52) :: rat) * u \<le> of_int \<lfloor>y\<rfloor> * u"
      using flo u by (simp only: of_int_le_iff mult_le_cancel_right_pos)
    ultimately show ?thesis using lowfl by simp
  qed
  show "binary64 x \<le> of_int n * power_int 2 j" if ge: "x \<le> of_int n * power_int 2 j"
  proof (cases "e \<le> j")
    case True
    then obtain N :: int where N: "of_int n * power_int (2::rat) j = of_int N * u" using big by blast
    then have "y \<le> of_int N" using ge u by (simp add: xy)
    then have "\<lceil>y\<rceil> \<le> N" by (simp only: ceiling_le_iff)
    then have "(of_int \<lceil>y\<rceil> :: rat) * u \<le> of_int N * u" using u by simp
    then show ?thesis using N upfl by simp
  next
    case False
    then have "of_int n * power_int 2 j < 2 ^ 52 * u" using small by simp
    moreover have "2 ^ 52 * u \<le> x" using ylo u by (simp add: xy)
    ultimately show ?thesis using ge by simp
  qed
qed

lemma binary64_0 [simp]: "binary64 0 = 0"
  by (simp add: binary64_def)

lemma binary64_int:
  assumes "0 \<le> n" "n < 2 ^ 53"
  shows "binary64 (of_int n) = of_int n"
proof (cases "n = 0")
  case True
  then show ?thesis by simp
next
  case False
  then have x: "(0::rat) < of_int n" using assms(1) by simp
  show ?thesis
    using binary64_bracket [OF x assms, of 0] by simp
qed

text \<open>The integer part of a rounded value is the integer part of the exact one, when a
  dyadic number lies between the exact value and the next integer.\<close>

lemma py_int_binary64:
  assumes k: "0 \<le> k" "(k + 1) * 2 ^ p \<le> 2 ^ 53"
    and lo: "of_int k \<le> x" and hi: "x \<le> of_int (k + 1) - 1 / 2 ^ p"
  shows "py_int (binary64 x) = k"
proof (cases "x = 0")
  case True
  then have "k = 0" using lo k(1) by simp
  then show ?thesis using True by (simp add: py_int_def)
next
  case False
  have "(0::rat) \<le> of_int k" using k(1) by simp
  then have pos: "0 < x" using lo False by linarith
  define n where "n = (k + 1) * 2 ^ p - 1"
  have n: "0 \<le> n" "n < 2 ^ 53" using k by (simp_all add: n_def)
  have r: "of_int n * power_int (2::rat) (- int p) = of_int (k + 1) - 1 / 2 ^ p"
    by (simp add: n_def power_int_minus inverse_eq_divide field_simps)
  have k53: "k < 2 ^ 53"
  proof -
    have "k + 1 \<le> (k + 1) * 2 ^ p" using k(1) by (simp add: mult_le_cancel_left1)
    then show ?thesis using k(2) by simp
  qed
  have a: "of_int k \<le> binary64 x"
    using binary64_bracket(1) [OF pos k(1) k53, of 0] lo by simp
  have b: "binary64 x \<le> of_int (k + 1) - 1 / 2 ^ p"
    using binary64_bracket(2) [OF pos n, of "- int p"] hi by (simp only: r)
  have "(0::rat) < 1 / 2 ^ p" by simp
  with b have c: "binary64 x < of_int k + 1" by linarith
  have "\<lfloor>binary64 x\<rfloor> = k" using a c by (simp add: floor_unique)
  moreover have "0 \<le> binary64 x" using a \<open>(0::rat) \<le> of_int k\<close> by linarith
  ultimately show ?thesis by (simp add: py_int_def)
qed

text \<open>Up to \<open>2\<^sup>2\<^sup>7\<close> minutes (some 255 years) the two roundings do not reach the next
  minute: the duration is the exact quotient, cut.\<close>

lemma total_minutes_exact:
  assumes "0 \<le> us" and "us < 2 ^ 27 * 60000000"
  shows "total_minutes us = us div 60000000"
proof -
  define k where "k = us div 60000000"
  define x :: rat where "x = of_int us / 1000000"
  have us: "60000000 * k \<le> us" "us \<le> 60000000 * k + 59999999"
    by (simp_all add: k_def)
  have k: "0 \<le> k" "k + 1 \<le> 2 ^ 27"
    using assms by (simp_all add: k_def pos_imp_zdiv_nonneg_iff int_div_less_iff)
  have x_lo: "of_int (60 * k) \<le> x"
  proof -
    have "(of_int (60000000 * k) :: rat) \<le> of_int us" using us(1) by (simp only: of_int_le_iff)
    then show ?thesis by (simp add: x_def)
  qed
  have x_hi: "x \<le> of_int (60 * k + 59 + 1) - 1 / 2 ^ 20"
  proof -
    have "(of_int us :: rat) \<le> of_int (60000000 * k + 59999999)"
      using us(2) by (simp only: of_int_le_iff)
    then have "x \<le> of_int (60 * k) + 59999999 / 1000000" by (simp add: x_def)
    then show ?thesis by simp
  qed
  define y where "y = total_seconds us"
  have y: "of_int (60 * k) \<le> y" "y \<le> of_int (60 * k + 59 + 1) - 1 / 2 ^ 20"
  proof -
    have x0: "0 \<le> x" using assms(1) by (simp add: x_def)
    have n1: "0 \<le> 60 * k" "60 * k < 2 ^ 53" using k by simp_all
    define n where "n = (60 * k + 59 + 1) * 2 ^ 20 - 1"
    have n2: "0 \<le> n" "n < 2 ^ 53" using k by (simp_all add: n_def)
    have r: "of_int n * power_int (2::rat) (- 20) = of_int (60 * k + 59 + 1) - 1 / 2 ^ 20"
      by (simp add: n_def field_simps)
    show "of_int (60 * k) \<le> y"
    proof (cases "x = 0")
      case True
      then show ?thesis using x_lo by (simp add: y_def total_seconds_def x_def)
    next
      case False
      then have "0 < x" using x0 by simp
      from binary64_bracket(1) [OF this n1, of 0] x_lo
      show ?thesis by (simp add: y_def total_seconds_def x_def)
    qed
    show "y \<le> of_int (60 * k + 59 + 1) - 1 / 2 ^ 20"
    proof (cases "x = 0")
      case True
      then have "y = 0" by (simp add: y_def total_seconds_def x_def)
      then show ?thesis using x_hi True by simp
    next
      case False
      then have "0 < x" using x0 by simp
      from binary64_bracket(2) [OF this n2, of "- 20"] x_hi
      show ?thesis by (simp only: r y_def total_seconds_def x_def)
    qed
  qed
  have q_lo: "of_int k \<le> y / 60" using y(1) by simp
  have q_hi: "y / 60 \<le> of_int (k + 1) - 1 / 2 ^ 26" using y(2) by simp
  have "(k + 1) * 2 ^ 26 \<le> 2 ^ 53" using k(2) by simp
  from py_int_binary64 [OF k(1) this q_lo q_hi]
  show ?thesis by (simp add: total_minutes_def y_def k_def)
qed

text \<open>A whole number of seconds is a double, so that only the division by 60 rounds.\<close>

lemma total_minutes_whole_seconds:
  assumes "0 \<le> s" and "s < 2 ^ 47 * 60"
  shows "total_minutes (s * 1000000) = s div 60"
proof -
  define k where "k = s div 60"
  have s: "60 * k \<le> s" "s \<le> 60 * k + 59" by (simp_all add: k_def)
  have k: "0 \<le> k" "k + 1 \<le> 2 ^ 47"
    using assms by (simp_all add: k_def pos_imp_zdiv_nonneg_iff int_div_less_iff)
  have "s < 2 ^ 53" using assms(2) by simp
  then have y: "total_seconds (s * 1000000) = of_int s"
    using assms(1) by (simp add: total_seconds_def binary64_int)
  have "(of_int (60 * k) :: rat) \<le> of_int s" using s(1) by (simp only: of_int_le_iff)
  then have q_lo: "of_int k \<le> (of_int s :: rat) / 60" by simp
  have "(of_int s :: rat) \<le> of_int (60 * k + 59)" using s(2) by (simp only: of_int_le_iff)
  then have q_hi: "(of_int s :: rat) / 60 \<le> of_int (k + 1) - 1 / 2 ^ 6" by simp
  have "(k + 1) * 2 ^ 6 \<le> 2 ^ 53" using k(2) by simp
  from py_int_binary64 [OF k(1) this q_lo q_hi]
  show ?thesis by (simp add: total_minutes_def y k_def)
qed

text \<open>Both bounds together.\<close>

lemma total_minutes_trunc:
  assumes "0 \<le> us"
    and "us < 2 ^ 27 * 60000000 \<or> us mod 1000000 = 0 \<and> us < 2 ^ 47 * 60000000"
  shows "total_minutes us = us div 60000000"
proof (cases "us < 2 ^ 27 * 60000000")
  case True
  with assms(1) show ?thesis by (rule total_minutes_exact)
next
  case False
  with assms(2) have w: "us mod 1000000 = 0" and b: "us < 2 ^ 47 * 60000000" by simp_all
  define s where "s = us div 1000000"
  have us: "us = s * 1000000" using w div_mult_mod_eq [of us 1000000] by (simp add: s_def)
  have "0 \<le> s" using assms(1) by (simp add: s_def pos_imp_zdiv_nonneg_iff)
  moreover have "s < 2 ^ 47 * 60" using b by (simp add: us)
  ultimately have "total_minutes (s * 1000000) = s div 60" by (rule total_minutes_whole_seconds)
  moreover have "us div 60000000 = s div 60"
    using zdiv_zmult2_eq [of 1000000 us 60] by (simp add: s_def)
  ultimately show ?thesis by (simp add: us)
qed

subsection \<open>Order of the result\<close>

lemma adjust_start_eq:
  "adjust_working_hours who wsh weh gs ge = Inr (Some (gs', ge')) \<Longrightarrow> gs' = adjusted_start who wsh gs"
  by (auto simp: adjust_working_hours_def adjusted_start_def replace_hour_def
      split: if_splits sum.splits option.splits)

lemma emit_slot_start: "s \<in> set (emit_slot m gs ge) \<Longrightarrow> slot_start s = strftime_Z gs"
  by (auto simp: emit_slot_def Let_def split: if_splits)

lemma sorted_append_emit:
  assumes "sorted (map slot_start free)" "\<forall>s\<in>set free. slot_start s \<le> strftime_Z gs"
  shows "sorted (map slot_start (free @ emit_slot m gs ge))"
  using assms by (auto simp: sorted_append emit_slot_def Let_def)

lemma sweep_sorted:
  "sweep m who wsh weh re bs free cur = Inr (free', cur') \<Longrightarrow>
   sorted (map slot_start free) \<Longrightarrow>
   \<forall>s\<in>set free. slot_start s \<le> strftime_Z (adjusted_start who wsh cur) \<Longrightarrow>
   sorted (map slot_start free')
   \<and> (\<forall>s\<in>set free'. slot_start s \<le> strftime_Z (adjusted_start who wsh cur'))"
proof (induction bs arbitrary: free cur)
  case Nil
  then show ?case by simp
next
  case (Cons b bs)
  obtain busy_start busy_end where b: "b = (busy_start, busy_end)" by (cases b)
  have mono: "\<And>x. x \<le> strftime_Z (adjusted_start who wsh cur)
      \<Longrightarrow> x \<le> strftime_Z (adjusted_start who wsh (max cur busy_end))"
    using adjusted_start_mono [of cur "max cur busy_end" who wsh] by simp
  show ?case
  proof (cases "busy_start > cur")
    case False
    with Cons.prems b have "sweep m who wsh weh re bs free (max cur busy_end) = Inr (free', cur')"
      by simp
    moreover have "\<forall>s\<in>set free. slot_start s \<le> strftime_Z (adjusted_start who wsh (max cur busy_end))"
      using Cons.prems(3) mono by blast
    ultimately show ?thesis using Cons.IH Cons.prems(2) by blast
  next
    case True
    show ?thesis
    proof (cases "adjust_working_hours who wsh weh cur (min busy_start re)")
      case (Inl e)
      with Cons.prems True b show ?thesis by simp
    next
      case (Inr r)
      show ?thesis
      proof (cases r)
        case None
        with Inr Cons.prems True b have "sweep m who wsh weh re bs free cur = Inr (free', cur')"
          by simp
        then show ?thesis using Cons.IH Cons.prems(2,3) by blast
      next
        case (Some g)
        obtain gs ge where g: "g = (gs, ge)" by (cases g)
        have gs: "gs = adjusted_start who wsh cur"
          using Inr Some g adjust_start_eq by blast
        have run: "sweep m who wsh weh re bs (free @ emit_slot m gs ge) (max cur busy_end) = Inr (free', cur')"
          using Inr Some g Cons.prems(1) True b by simp
        have s1: "sorted (map slot_start (free @ emit_slot m gs ge))"
          using Cons.prems(2,3) gs sorted_append_emit by blast
        have s2: "\<forall>s\<in>set (free @ emit_slot m gs ge).
                    slot_start s \<le> strftime_Z (adjusted_start who wsh (max cur busy_end))"
          using Cons.prems(3) mono emit_slot_start gs by fastforce
        show ?thesis using Cons.IH [OF run s1 s2] .
      qed
    qed
  qed
qed

lemma final_gap_sorted:
  assumes "final_gap m who wsh weh re free cur = Inr slots"
    "sorted (map slot_start free)"
    "\<forall>s\<in>set free. slot_start s \<le> strftime_Z (adjusted_start who wsh cur)"
  shows "sorted (map slot_start slots)"
proof (cases "cur < re")
  case False
  then show ?thesis using assms by (simp add: final_gap_def)
next
  case True
  show ?thesis
  proof (cases "adjust_working_hours who wsh weh cur re")
    case (Inl e)
    then show ?thesis using assms True by (simp add: final_gap_def)
  next
    case (Inr r)
    show ?thesis
    proof (cases r)
      case None
      then show ?thesis using Inr assms True by (simp add: final_gap_def)
    next
      case (Some g)
      obtain gs ge where g: "g = (gs, ge)" by (cases g)
      have gs: "gs = adjusted_start who wsh cur"
        using Inr Some g adjust_start_eq by blast
      have "slots = free @ emit_slot m gs ge"
        using Inr Some g assms(1) True by (simp add: final_gap_def)
      then show ?thesis using assms(2,3) gs sorted_append_emit by blast
    qed
  qed
qed

text \<open>
  C3.  Whatever the events, the window, the minimum duration and the working hours are, the
  slots of a result are in non-decreasing order of their start.
\<close>

theorem find_free_slots_sorted:
  assumes "find_free_slots lib events time_min time_max m who wsh weh = Inr slots"
  shows "sorted (map slot_start slots)"
proof (cases "fromisoformat lib (replace_Z time_min)")
  case None
  then show ?thesis using assms by (simp add: find_free_slots_def)
next
  case (Some range_start)
  show ?thesis
  proof (cases "fromisoformat lib (replace_Z time_max)")
    case None
    then show ?thesis using assms Some by (simp add: find_free_slots_def)
  next
    case rend: (Some range_end)
    show ?thesis
    proof (cases "sweep m who wsh weh (wall range_end) (busy_periods lib events) [] (wall range_start)")
      case (Inl e)
      then show ?thesis using assms Some rend by (simp add: find_free_slots_def)
    next
      case (Inr st)
      obtain free cur where st: "st = (free, cur)" by (cases st)
      have fin: "final_gap m who wsh weh (wall range_end) free cur = Inr slots"
        using assms Some rend Inr st by (simp add: find_free_slots_def)
      have "sorted (map slot_start free) \<and>
            (\<forall>s\<in>set free. slot_start s \<le> strftime_Z (adjusted_start who wsh cur))"
        using sweep_sorted [of m who wsh weh "wall range_end" "busy_periods lib events" "[]"
            "wall range_start" free cur] Inr st by simp
      then show ?thesis using final_gap_sorted [OF fin] by blast
    qed
  qed
qed

subsection \<open>The minimum duration\<close>

lemma map_result_simps [simp]:
  "map_result f (Inl e) = Inl e" "map_result f (Inr x) = Inr (f x)"
  by (simp_all add: map_result_def)

lemma emit_slot_filter:
  "m1 \<le> m2 \<Longrightarrow> filter (\<lambda>s. m2 \<le> duration_minutes s) (emit_slot m1 gs ge) = emit_slot m2 gs ge"
  by (simp add: emit_slot_def Let_def)

lemma emit_slot_min: "s \<in> set (emit_slot m gs ge) \<Longrightarrow> m \<le> duration_minutes s"
  by (auto simp: emit_slot_def Let_def split: if_splits)

lemma sweep_raise_min:
  assumes "m1 \<le> m2"
  shows "sweep m2 who wsh weh re bs (filter (\<lambda>s. m2 \<le> duration_minutes s) free) cur
       = map_result (\<lambda>(f, c). (filter (\<lambda>s. m2 \<le> duration_minutes s) f, c))
           (sweep m1 who wsh weh re bs free cur)"
proof (induction bs arbitrary: free cur)
  case Nil
  show ?case by simp
next
  case (Cons b bs)
  obtain busy_start busy_end where b: "b = (busy_start, busy_end)" by (cases b)
  have step: "\<And>gs ge c. sweep m2 who wsh weh re bs
                   (filter (\<lambda>s. m2 \<le> duration_minutes s) free @ emit_slot m2 gs ge) c
                 = map_result (\<lambda>(f, c). (filter (\<lambda>s. m2 \<le> duration_minutes s) f, c))
                     (sweep m1 who wsh weh re bs (free @ emit_slot m1 gs ge) c)"
  proof -
    fix gs ge c
    have "filter (\<lambda>s. m2 \<le> duration_minutes s) (free @ emit_slot m1 gs ge)
        = filter (\<lambda>s. m2 \<le> duration_minutes s) free @ emit_slot m2 gs ge"
      using assms by (simp add: emit_slot_filter)
    then show "sweep m2 who wsh weh re bs
                   (filter (\<lambda>s. m2 \<le> duration_minutes s) free @ emit_slot m2 gs ge) c
                 = map_result (\<lambda>(f, c). (filter (\<lambda>s. m2 \<le> duration_minutes s) f, c))
                     (sweep m1 who wsh weh re bs (free @ emit_slot m1 gs ge) c)"
      using Cons.IH [of "free @ emit_slot m1 gs ge" c] by (simp only:)
  qed
  show ?case
    unfolding b sweep.simps
    by (simp add: Cons.IH step split: sum.splits option.splits prod.splits)
qed

lemma final_gap_raise_min:
  assumes "m1 \<le> m2"
  shows "final_gap m2 who wsh weh re (filter (\<lambda>s. m2 \<le> duration_minutes s) free) cur
       = map_result (filter (\<lambda>s. m2 \<le> duration_minutes s)) (final_gap m1 who wsh weh re free cur)"
  using assms by (simp add: final_gap_def emit_slot_filter split: sum.splits option.splits prod.splits)

lemma sweep_min:
  "sweep m who wsh weh re bs free cur = Inr (free', cur') \<Longrightarrow>
   \<forall>s\<in>set free. m \<le> duration_minutes s \<Longrightarrow> \<forall>s\<in>set free'. m \<le> duration_minutes s"
proof (induction bs arbitrary: free cur)
  case Nil
  then show ?case by simp
next
  case (Cons b bs)
  obtain busy_start busy_end where b: "b = (busy_start, busy_end)" by (cases b)
  have ext: "\<And>gs ge. \<forall>s\<in>set (free @ emit_slot m gs ge). m \<le> duration_minutes s"
    using Cons.prems(2) emit_slot_min by auto
  show ?case using Cons.prems(1) Cons.prems(2) ext Cons.IH unfolding b sweep.simps
    by (auto split: if_splits sum.splits option.splits prod.splits)
qed

lemma final_gap_min:
  "final_gap m who wsh weh re free cur = Inr slots \<Longrightarrow>
   \<forall>s\<in>set free. m \<le> duration_minutes s \<Longrightarrow> \<forall>s\<in>set slots. m \<le> duration_minutes s"
  by (auto simp: final_gap_def dest: emit_slot_min split: if_splits sum.splits option.splits)

lemma find_free_slots_min:
  assumes "find_free_slots lib events time_min time_max m who wsh weh = Inr slots"
  shows "\<forall>s\<in>set slots. m \<le> duration_minutes s"
proof (cases "fromisoformat lib (replace_Z time_min)")
  case None
  then show ?thesis using assms by (simp add: find_free_slots_def)
next
  case (Some range_start)
  show ?thesis
  proof (cases "fromisoformat lib (replace_Z time_max)")
    case None
    then show ?thesis using assms Some by (simp add: find_free_slots_def)
  next
    case rend: (Some range_end)
    show ?thesis
    proof (cases "sweep m who wsh weh (wall range_end) (busy_periods lib events) [] (wall range_start)")
      case (Inl e)
      then show ?thesis using assms Some rend by (simp add: find_free_slots_def)
    next
      case (Inr st)
      obtain free cur where st: "st = (free, cur)" by (cases st)
      have fin: "final_gap m who wsh weh (wall range_end) free cur = Inr slots"
        using assms Some rend Inr st by (simp add: find_free_slots_def)
      have "\<forall>s\<in>set free. m \<le> duration_minutes s"
        using sweep_min [of m who wsh weh "wall range_end" "busy_periods lib events" "[]"
            "wall range_start" free cur] Inr st by simp
      then show ?thesis using final_gap_min [OF fin] by blast
    qed
  qed
qed

lemma find_free_slots_raise_min:
  assumes "m1 \<le> m2"
  shows "find_free_slots lib events time_min time_max m2 who wsh weh
       = map_result (filter (\<lambda>s. m2 \<le> duration_minutes s))
           (find_free_slots lib events time_min time_max m1 who wsh weh)"
proof -
  have sw: "\<And>re bs cur. sweep m2 who wsh weh re bs [] cur
       = map_result (\<lambda>(f, c). (filter (\<lambda>s. m2 \<le> duration_minutes s) f, c))
           (sweep m1 who wsh weh re bs [] cur)"
    using sweep_raise_min [OF assms, of who wsh weh _ _ "[]"] by simp
  show ?thesis
    unfolding find_free_slots_def
    by (simp add: sw final_gap_raise_min [OF assms] split: option.splits sum.splits prod.splits)
qed

text \<open>
  C4.  For \<open>m1 \<le> m2\<close> and everything else fixed, the result with minimum \<open>m2\<close> is the
  result with minimum \<open>m1\<close> restricted to the slots of at least \<open>m2\<close> minutes, in the
  same order and with the same boundaries and durations (an exception with \<open>m1\<close> is the
  same exception with \<open>m2\<close>); and no slot of a result is shorter than the minimum.
\<close>

theorem raising_min_duration_filters:
  assumes "m1 \<le> m2"
  shows "find_free_slots lib events time_min time_max m2 who wsh weh
         = map_result (filter (\<lambda>s. m2 \<le> duration_minutes s))
             (find_free_slots lib events time_min time_max m1 who wsh weh)
       \<and> (\<forall>slots. find_free_slots lib events time_min time_max m1 who wsh weh = Inr slots
            \<longrightarrow> (\<forall>s\<in>set slots. m1 \<le> duration_minutes s))"
  using find_free_slots_raise_min [OF assms] find_free_slots_min by blast

subsection \<open>Totality\<close>

lemma adjust_total:
  assumes "0 \<le> wsh" "wsh \<le> 23" "0 \<le> weh" "weh \<le> 23"
  shows "\<exists>r. adjust_working_hours who wsh weh gs ge = Inr r"
  using assms by (simp add: adjust_working_hours_def replace_hour_def split: option.splits)

lemma sweep_total:
  assumes "0 \<le> wsh" "wsh \<le> 23" "0 \<le> weh" "weh \<le> 23"
  shows "\<exists>st. sweep m who wsh weh re bs free cur = Inr st"
proof (induction bs arbitrary: free cur)
  case Nil
  show ?case by simp
next
  case (Cons b bs)
  obtain busy_start busy_end where b: "b = (busy_start, busy_end)" by (cases b)
  obtain r where r: "adjust_working_hours who wsh weh cur (min busy_start re) = Inr r"
    using adjust_total [OF assms] by blast
  show ?case unfolding b sweep.simps using r Cons.IH
    by (simp split: option.splits prod.splits)
qed

lemma final_gap_total:
  assumes "0 \<le> wsh" "wsh \<le> 23" "0 \<le> weh" "weh \<le> 23"
  shows "\<exists>slots. final_gap m who wsh weh re free cur = Inr slots"
proof -
  obtain r where r: "adjust_working_hours who wsh weh cur re = Inr r"
    using adjust_total [OF assms] by blast
  show ?thesis using r by (simp add: final_gap_def split: option.splits prod.splits)
qed

text \<open>
  C8.  With both working hours between 0 and 23, no exception leaves the function: it
  returns a list, for all events, window strings, minimum durations and both modes.
\<close>

theorem find_free_slots_total:
  assumes "0 \<le> wsh \<and> wsh \<le> 23" "0 \<le> weh \<and> weh \<le> 23"
  shows "\<exists>slots. find_free_slots lib events time_min time_max m who wsh weh = Inr slots"
proof -
  have h: "0 \<le> wsh" "wsh \<le> 23" "0 \<le> weh" "weh \<le> 23" using assms by simp_all
  show ?thesis
    unfolding find_free_slots_def
    using sweep_total [OF h] final_gap_total [OF h]
    by (auto split: option.splits sum.splits prod.splits) (metis sum.distinct(1) old.sum.inject(2))+
qed

subsection \<open>Concrete runs\<close>

lemma jan15_parse:
  "fromisoformat rfc3339_lib (replace_Z ''2024-01-15T09:00:00Z'')
     = Some \<lparr>wall = jan15 9 0 0, tzinfo = Some 0\<rparr>"
  "fromisoformat rfc3339_lib (replace_Z ''2024-01-15T09:10:00Z'')
     = Some \<lparr>wall = jan15 9 10 0, tzinfo = Some 0\<rparr>"
  "fromisoformat rfc3339_lib (replace_Z ''2024-01-15T17:00:00Z'')
     = Some \<lparr>wall = jan15 17 0 0, tzinfo = Some 0\<rparr>"
  "fromisoformat rfc3339_lib (replace_Z ''2024-01-15T00:00:00Z'')
     = Some \<lparr>wall = jan15 0 0 0, tzinfo = Some 0\<rparr>"
  "fromisoformat rfc3339_lib (replace_Z ''2024-01-15T23:59:59Z'')
     = Some \<lparr>wall = jan15 23 59 59, tzinfo = Some 0\<rparr>"
  by code_simp+

lemma jan15_whole: "strftime_Z (jan15 h mi s) = jan15 h mi s"
proof -
  have "jan15 h mi s = (738899 * 86400 + h * 3600 + (mi * 60 + s)) * us_second"
    by (simp add: jan15_def us_day_def us_hour_def us_second_def)
  then have "jan15 h mi s mod us_second = 0" by simp
  then show ?thesis by (rule strftime_Z_whole)
qed

lemma total_minutes_8h: "total_minutes (8 * us_hour) = 480"
  using total_minutes_exact [of "8 * us_hour"] by (simp add: us_hour_def)

text \<open>The scenario of \<^verbatim>\<open>test_find_free_slots_with_event\<close>.\<close>

lemma run_one_event:
  "find_free_slots rfc3339_lib [ev_timed ''2024-01-15T12:00:00Z'' ''2024-01-15T13:00:00Z'']
     ''2024-01-15T09:00:00Z'' ''2024-01-15T17:00:00Z'' 30 False 9 17
   = Inr [\<lparr>slot_start = jan15 9 0 0, slot_end = jan15 12 0 0, duration_minutes = 180\<rparr>,
          \<lparr>slot_start = jan15 13 0 0, slot_end = jan15 17 0 0, duration_minutes = 240\<rparr>]"
  by code_simp

text \<open>The scenario of \<^verbatim>\<open>test_find_free_slots_min_duration_filter\<close>, with the minimum
  at 30 and at 60 minutes.\<close>

lemma run_short_event:
  "find_free_slots rfc3339_lib [ev_timed ''2024-01-15T10:00:00Z'' ''2024-01-15T10:15:00Z'']
     ''2024-01-15T09:00:00Z'' ''2024-01-15T11:00:00Z'' 30 False 9 17
   = Inr [\<lparr>slot_start = jan15 9 0 0, slot_end = jan15 10 0 0, duration_minutes = 60\<rparr>,
          \<lparr>slot_start = jan15 10 15 0, slot_end = jan15 11 0 0, duration_minutes = 45\<rparr>]"
  "find_free_slots rfc3339_lib [ev_timed ''2024-01-15T10:00:00Z'' ''2024-01-15T10:15:00Z'']
     ''2024-01-15T09:00:00Z'' ''2024-01-15T11:00:00Z'' 60 False 9 17
   = Inr [\<lparr>slot_start = jan15 9 0 0, slot_end = jan15 10 0 0, duration_minutes = 60\<rparr>]"
  by code_simp+

text \<open>The scenario of \<^verbatim>\<open>test_find_free_slots_all_day_event\<close>: both dates go through
  \<^verbatim>\<open>strptime\<close>, and the event covers the window.\<close>

lemma run_all_day_event:
  "find_free_slots rfc3339_lib
     [\<lparr>ev_start = Some \<lparr>dateTime = None, date = Some ''2024-01-15''\<rparr>,
       ev_end = Some \<lparr>dateTime = None, date = Some ''2024-01-16''\<rparr>\<rparr>]
     ''2024-01-15T09:00:00Z'' ''2024-01-15T17:00:00Z'' 30 False 9 17
   = Inr []"
  by code_simp

text \<open>A start hour outside 0..23 reaches \<^verbatim>\<open>replace\<close> and raises.\<close>

lemma run_start_hour_24:
  "find_free_slots rfc3339_lib [] ''2024-01-15T09:00:00Z'' ''2024-01-15T17:00:00Z'' 30 True 24 17
   = Inl ValueError"
  by code_simp

subsection \<open>The empty calendar\<close>

lemma busy_periods_Nil [simp]: "busy_periods lib [] = []"
  by (simp add: busy_periods_def List.map_filter_def)

lemma offset_parse:
  "fromisoformat rfc3339_lib (replace_Z ''2024-01-15T09:00:00+05:00'')
     = Some \<lparr>wall = jan15 9 0 0, tzinfo = Some (5 * us_hour)\<rparr>"
  "fromisoformat rfc3339_lib (replace_Z ''2024-01-15T10:00:00-05:00'')
     = Some \<lparr>wall = jan15 10 0 0, tzinfo = Some (- 5 * us_hour)\<rparr>"
  by code_simp+

lemma run_short_window:
  "find_free_slots rfc3339_lib [] ''2024-01-15T09:00:00Z'' ''2024-01-15T09:10:00Z''
     30 False 9 17 = Inr []"
  by code_simp

text \<open>The window from 09:00+05:00 to 10:00-05:00 runs from 04:00 to 15:00 UTC: 660
  minutes.  The offsets are dropped without conversion, and the slot is an hour long.\<close>

lemma run_offset_window:
  "find_free_slots rfc3339_lib [] ''2024-01-15T09:00:00+05:00'' ''2024-01-15T10:00:00-05:00''
     30 False 9 17
   = Inr [\<lparr>slot_start = jan15 9 0 0, slot_end = jan15 10 0 0, duration_minutes = 60\<rparr>]"
  by code_simp

text \<open>
  C1, as stated, fails in two ways.  With no events and working hours off, a window of ten
  minutes and a minimum of thirty give no slot.  And a window whose boundaries bear the
  offsets +05:00 and -05:00 gives a slot between the two wall-clock readings, stamped as
  UTC: 09:00 to 10:00 and 60 minutes, where the window runs from 04:00 to 15:00 UTC and is
  660 minutes long.
\<close>

theorem empty_calendar_window_counterexample:
  "(fromisoformat rfc3339_lib (replace_Z ''2024-01-15T09:00:00Z'')
      = Some \<lparr>wall = jan15 9 0 0, tzinfo = Some 0\<rparr>
    \<and> fromisoformat rfc3339_lib (replace_Z ''2024-01-15T09:10:00Z'')
      = Some \<lparr>wall = jan15 9 10 0, tzinfo = Some 0\<rparr>
    \<and> spec_utc \<lparr>wall = jan15 9 0 0, tzinfo = Some 0\<rparr>
        < spec_utc \<lparr>wall = jan15 9 10 0, tzinfo = Some 0\<rparr>
    \<and> find_free_slots rfc3339_lib [] ''2024-01-15T09:00:00Z'' ''2024-01-15T09:10:00Z''
          30 False 9 17 = Inr [])
   \<and> (fromisoformat rfc3339_lib (replace_Z ''2024-01-15T09:00:00+05:00'')
      = Some \<lparr>wall = jan15 9 0 0, tzinfo = Some (5 * us_hour)\<rparr>
    \<and> fromisoformat rfc3339_lib (replace_Z ''2024-01-15T10:00:00-05:00'')
      = Some \<lparr>wall = jan15 10 0 0, tzinfo = Some (- 5 * us_hour)\<rparr>
    \<and> spec_utc \<lparr>wall = jan15 9 0 0, tzinfo = Some (5 * us_hour)\<rparr> = jan15 4 0 0
    \<and> spec_utc \<lparr>wall = jan15 10 0 0, tzinfo = Some (- 5 * us_hour)\<rparr> = jan15 15 0 0
    \<and> (jan15 15 0 0 - jan15 4 0 0) div 60000000 = 660
    \<and> find_free_slots rfc3339_lib [] ''2024-01-15T09:00:00+05:00''
          ''2024-01-15T10:00:00-05:00'' 30 False 9 17
        = Inr [\<lparr>slot_start = jan15 9 0 0, slot_end = jan15 10 0 0, duration_minutes = 60\<rparr>])"
proof -
  have a: "spec_utc \<lparr>wall = jan15 9 0 0, tzinfo = Some 0\<rparr>
         < spec_utc \<lparr>wall = jan15 9 10 0, tzinfo = Some 0\<rparr>"
    by (simp add: spec_utc_def utc_offset_def jan15_def us_second_def)
  have b: "spec_utc \<lparr>wall = jan15 9 0 0, tzinfo = Some (5 * us_hour)\<rparr> = jan15 4 0 0"
    "spec_utc \<lparr>wall = jan15 10 0 0, tzinfo = Some (- 5 * us_hour)\<rparr> = jan15 15 0 0"
    by (simp_all add: spec_utc_def utc_offset_def jan15_def)
  have c: "(jan15 15 0 0 - jan15 4 0 0) div 60000000 = 660"
    by (simp add: jan15_def us_hour_def)
  show ?thesis
    using a b c jan15_parse(1,2) offset_parse run_short_window run_offset_window
    by simp
qed

text \<open>
  C1, amended.  With no events and working hours off, take a window whose two boundaries
  parse and bear no offset other than zero, whose start lies strictly before its end, and
  whose length, cut to whole minutes, is at least the minimum (the length below \<open>2\<^sup>2\<^sup>7\<close>
  minutes, or a whole number of seconds and below \<open>2\<^sup>4\<^sup>7\<close> minutes).  The result is
  exactly one slot: the window, printed to the second, with its length in whole minutes as
  the duration.  Windows whose boundaries bear another offset are left out.
\<close>

theorem empty_calendar_window_slot:
  assumes "fromisoformat lib (replace_Z time_min) = Some range_start"
    and "fromisoformat lib (replace_Z time_max) = Some range_end"
    and "utc_offset range_start = 0" and "utc_offset range_end = 0"
    and "spec_utc range_start < spec_utc range_end"
    and "spec_utc range_end - spec_utc range_start < 2 ^ 27 * 60000000
         \<or> (spec_utc range_end - spec_utc range_start) mod 1000000 = 0
           \<and> spec_utc range_end - spec_utc range_start < 2 ^ 47 * 60000000"
    and "m \<le> (spec_utc range_end - spec_utc range_start) div 60000000"
  shows "find_free_slots lib [] time_min time_max m False wsh weh
       = Inr [\<lparr>slot_start = strftime_Z (spec_utc range_start),
               slot_end = strftime_Z (spec_utc range_end),
               duration_minutes = (spec_utc range_end - spec_utc range_start) div 60000000\<rparr>]"
proof -
  have rs: "spec_utc range_start = wall range_start" and re: "spec_utc range_end = wall range_end"
    using assms(3,4) by (simp_all add: spec_utc_def)
  have lt: "wall range_start < wall range_end" using assms(5) by (simp add: rs re)
  then have "0 \<le> wall range_end - wall range_start" by simp
  then have dur: "total_minutes (wall range_end - wall range_start)
                = (wall range_end - wall range_start) div 60000000"
    using assms(6) unfolding rs re by (rule total_minutes_trunc)
  show ?thesis
    using assms(1,2,7) lt
    by (simp add: find_free_slots_def final_gap_def adjust_working_hours_def emit_slot_def
        dur rs re)
qed

theorem empty_calendar_window_slot_witness:
  "fromisoformat rfc3339_lib (replace_Z ''2024-01-15T09:00:00Z'')
     = Some \<lparr>wall = jan15 9 0 0, tzinfo = Some 0\<rparr>
   \<and> fromisoformat rfc3339_lib (replace_Z ''2024-01-15T17:00:00Z'')
     = Some \<lparr>wall = jan15 17 0 0, tzinfo = Some 0\<rparr>
   \<and> utc_offset \<lparr>wall = jan15 9 0 0, tzinfo = Some 0\<rparr> = 0
   \<and> utc_offset \<lparr>wall = jan15 17 0 0, tzinfo = Some 0\<rparr> = 0
   \<and> spec_utc \<lparr>wall = jan15 9 0 0, tzinfo = Some 0\<rparr>
       < spec_utc \<lparr>wall = jan15 17 0 0, tzinfo = Some 0\<rparr>
   \<and> spec_utc \<lparr>wall = jan15 17 0 0, tzinfo = Some 0\<rparr>
       - spec_utc \<lparr>wall = jan15 9 0 0, tzinfo = Some 0\<rparr> < 2 ^ 27 * 60000000
   \<and> (30::int) \<le> (spec_utc \<lparr>wall = jan15 17 0 0, tzinfo = Some 0\<rparr>
                    - spec_utc \<lparr>wall = jan15 9 0 0, tzinfo = Some 0\<rparr>) div 60000000
   \<and> find_free_slots rfc3339_lib [] ''2024-01-15T09:00:00Z'' ''2024-01-15T17:00:00Z''
         30 False 9 17
       = Inr [\<lparr>slot_start = jan15 9 0 0, slot_end = jan15 17 0 0, duration_minutes = 480\<rparr>]"
proof -
  let ?s = "\<lparr>wall = jan15 9 0 0, tzinfo = Some 0\<rparr>"
  let ?e = "\<lparr>wall = jan15 17 0 0, tzinfo = Some 0\<rparr>"
  have o: "utc_offset ?s = 0" "utc_offset ?e = 0" by (simp_all add: utc_offset_def)
  have u: "spec_utc ?s = jan15 9 0 0" "spec_utc ?e = jan15 17 0 0"
    by (simp_all add: spec_utc_def utc_offset_def)
  have d: "jan15 17 0 0 - jan15 9 0 0 = 28800000000" by (simp add: jan15_def us_hour_def)
  have lt: "spec_utc ?s < spec_utc ?e" using d by (simp add: u)
  have bd: "spec_utc ?e - spec_utc ?s < 2 ^ 27 * 60000000
          \<or> (spec_utc ?e - spec_utc ?s) mod 1000000 = 0
            \<and> spec_utc ?e - spec_utc ?s < 2 ^ 47 * 60000000"
    by (simp add: u d)
  have mn: "30 \<le> (spec_utc ?e - spec_utc ?s) div 60000000" by (simp add: u d)
  show ?thesis
    using empty_calendar_window_slot [OF jan15_parse(1) jan15_parse(3) o lt bd mn, of 9 17]
      jan15_parse(1) jan15_parse(3) o lt mn
    by (simp add: u d jan15_whole)
qed

lemma day_div: "0 \<le> r \<Longrightarrow> r < us_day \<Longrightarrow> (d * us_day + r) div us_day = d"
  using us_pos(3) by (simp add: div_pos_pos_trivial)

lemma day_mod: "0 \<le> r \<Longrightarrow> r < us_day \<Longrightarrow> (d * us_day + r) mod us_day = r"
  by (simp add: mod_pos_pos_trivial)

lemma hour_midnight: "hour (d * us_day) = 0"
  using day_mod [of 0 d] us_pos by (simp add: hour_eq)

lemma hour_last_second: "hour (d * us_day + 86399 * us_second) = 23"
proof -
  have "(d * us_day + 86399 * us_second) mod us_day = 86399 * us_second"
    by (rule day_mod) (simp_all add: us_second_def us_day_def)
  then show ?thesis by (simp add: hour_eq us_second_def us_hour_def)
qed

text \<open>
  C9.  A window from 00:00:00 to 23:59:59 of one day \<open>d\<close>, no events, working hours from
  9 to 17 and a minimum of at most 480: the result is the one slot from 09:00 to 17:00 of
  that day, 480 minutes long.
\<close>

theorem working_day_slot:
  assumes "fromisoformat lib (replace_Z time_min) = Some range_start"
    and "make_naive range_start = d * us_day"
    and "fromisoformat lib (replace_Z time_max) = Some range_end"
    and "make_naive range_end = d * us_day + 86399 * us_second"
    and "m \<le> 480"
  shows "find_free_slots lib [] time_min time_max m True 9 17
       = Inr [\<lparr>slot_start = d * us_day + 9 * us_hour, slot_end = d * us_day + 17 * us_hour,
               duration_minutes = 480\<rparr>]"
proof -
  have lt: "d * us_day < d * us_day + 86399 * us_second" by (simp add: us_second_def)
  have r1: "replace_hour (d * us_day) 9 = Inr (d * us_day + 9 * us_hour)"
    using day_div [of 0 d] mod_second_day [of d 0] us_pos by (simp add: replace_hour_def)
  have r2: "replace_hour (d * us_day + 86399 * us_second) 17 = Inr (d * us_day + 17 * us_hour)"
  proof -
    have "(d * us_day + 86399 * us_second) div us_day = d"
      by (rule day_div) (simp_all add: us_second_def us_day_def)
    moreover have "(d * us_day + 86399 * us_second) mod us_second = 0"
      by (simp only: mod_second_day) simp
    ultimately show ?thesis by (simp add: replace_hour_def)
  qed
  have adj: "adjust_working_hours True 9 17 (d * us_day) (d * us_day + 86399 * us_second)
           = Inr (Some (d * us_day + 9 * us_hour, d * us_day + 17 * us_hour))"
    by (simp add: adjust_working_hours_def hour_midnight hour_last_second r1 r2)
  have em: "emit_slot m (d * us_day + 9 * us_hour) (d * us_day + 17 * us_hour)
          = [\<lparr>slot_start = d * us_day + 9 * us_hour, slot_end = d * us_day + 17 * us_hour,
               duration_minutes = 480\<rparr>]"
    using assms(5) whole_second_day_hour [of d 9] whole_second_day_hour [of d 17] us_pos(2)
    by (simp add: emit_slot_def strftime_Z_def total_minutes_8h)
  show ?thesis
    using assms(1-4) lt by (simp add: find_free_slots_def final_gap_def adj em)
qed

theorem working_day_slot_witness:
  "fromisoformat rfc3339_lib (replace_Z ''2024-01-15T00:00:00Z'')
     = Some \<lparr>wall = jan15 0 0 0, tzinfo = Some 0\<rparr>
   \<and> jan15 0 0 0 = 738899 * us_day
   \<and> fromisoformat rfc3339_lib (replace_Z ''2024-01-15T23:59:59Z'')
     = Some \<lparr>wall = jan15 23 59 59, tzinfo = Some 0\<rparr>
   \<and> jan15 23 59 59 = 738899 * us_day + 86399 * us_second
   \<and> (30::int) \<le> 480
   \<and> find_free_slots rfc3339_lib [] ''2024-01-15T00:00:00Z'' ''2024-01-15T23:59:59Z''
         30 True 9 17
       = Inr [\<lparr>slot_start = jan15 9 0 0, slot_end = jan15 17 0 0, duration_minutes = 480\<rparr>]"
proof -
  have a: "jan15 0 0 0 = 738899 * us_day" by (simp add: jan15_def)
  have b: "jan15 23 59 59 = 738899 * us_day + 86399 * us_second"
    by (simp add: jan15_def us_hour_def us_second_def)
  have c: "jan15 9 0 0 = 738899 * us_day + 9 * us_hour"
    "jan15 17 0 0 = 738899 * us_day + 17 * us_hour"
    by (simp_all add: jan15_def)
  show ?thesis
    using working_day_slot [OF jan15_parse(4) _ jan15_parse(5), of 738899 30] a b c
      jan15_parse(4,5)
    by simp
qed

subsection \<open>The recorded duration\<close>

text \<open>Beyond these bounds the two roundings can reach the next minute: the span between
  the least and the greatest datetime, 0001-01-01T00:00:00 and 9999-12-31T23:59:59.999999,
  is one microsecond short of 5258964960 minutes.\<close>

lemma total_minutes_of_longest_span:
  "total_minutes 315537897599999999 = 5258964960"
  "315537897599999999 div 60000000 = (5258964959 :: int)"
  by code_simp+

lemma run_hundred_seconds:
  "find_free_slots rfc3339_lib [] ''2024-01-15T09:00:00Z'' ''2024-01-15T09:01:40Z'' 1 False 9 17
   = Inr [\<lparr>slot_start = jan15 9 0 0, slot_end = jan15 9 1 40, duration_minutes = 1\<rparr>]"
  "find_free_slots rfc3339_lib [] ''2024-01-15T09:00:00Z'' ''2024-01-15T09:01:40Z'' 2 False 9 17
   = Inr []"
  by code_simp+

lemma spec_hundred_seconds: "spec_duration_minutes (jan15 9 0 0) (jan15 9 1 40) = 2"
  by (simp add: spec_duration_minutes_def jan15_def us_second_def round_def)

text \<open>
  C5, as stated, fails: a gap of 100 seconds is recorded with 1 minute, where rounding to
  the nearest integer gives 2; and with a minimum of 2 the slot is not emitted, although
  its rounded length reaches the minimum.
\<close>

theorem duration_not_rounded_counterexample:
  "find_free_slots rfc3339_lib [] ''2024-01-15T09:00:00Z'' ''2024-01-15T09:01:40Z'' 1 False 9 17
     = Inr [\<lparr>slot_start = jan15 9 0 0, slot_end = jan15 9 1 40, duration_minutes = 1\<rparr>]
   \<and> spec_duration_minutes (jan15 9 0 0) (jan15 9 1 40) = 2
   \<and> find_free_slots rfc3339_lib [] ''2024-01-15T09:00:00Z'' ''2024-01-15T09:01:40Z'' 2 False 9 17
     = Inr []"
  using run_hundred_seconds spec_hundred_seconds by simp

text \<open>
  C5, amended.  For a gap that ends after it starts and is shorter than \<open>2\<^sup>2\<^sup>7\<close> minutes
  (or is a whole number of seconds and shorter than \<open>2\<^sup>4\<^sup>7\<close> minutes), the recorded
  duration is the length of the gap in minutes cut to a whole number, not rounded; the
  slot is emitted if and only if this number is at least the minimum.
\<close>

theorem emit_slot_truncates:
  assumes "gap_start < gap_end"
    and "gap_end - gap_start < 2 ^ 27 * 60000000
         \<or> (gap_end - gap_start) mod 1000000 = 0 \<and> gap_end - gap_start < 2 ^ 47 * 60000000"
  shows "emit_slot m gap_start gap_end
       = (if m \<le> (gap_end - gap_start) div 60000000
          then [\<lparr>slot_start = strftime_Z gap_start, slot_end = strftime_Z gap_end,
                  duration_minutes = (gap_end - gap_start) div 60000000\<rparr>]
          else [])"
proof -
  have "0 \<le> gap_end - gap_start" using assms(1) by simp
  then have "total_minutes (gap_end - gap_start) = (gap_end - gap_start) div 60000000"
    using assms(2) by (rule total_minutes_trunc)
  then show ?thesis using assms(1) by (simp add: emit_slot_def)
qed

theorem emit_slot_truncates_witness:
  "jan15 9 0 0 < jan15 9 1 40
   \<and> jan15 9 1 40 - jan15 9 0 0 < 2 ^ 27 * 60000000
   \<and> (jan15 9 1 40 - jan15 9 0 0) div 60000000 = 1
   \<and> emit_slot 1 (jan15 9 0 0) (jan15 9 1 40)
       = [\<lparr>slot_start = jan15 9 0 0, slot_end = jan15 9 1 40, duration_minutes = 1\<rparr>]
   \<and> emit_slot 2 (jan15 9 0 0) (jan15 9 1 40) = []"
proof -
  have d: "jan15 9 1 40 - jan15 9 0 0 = 100000000" by (simp add: jan15_def us_second_def)
  have a: "jan15 9 0 0 < jan15 9 1 40" using d by simp
  have b: "jan15 9 1 40 - jan15 9 0 0 < 2 ^ 27 * 60000000
         \<or> (jan15 9 1 40 - jan15 9 0 0) mod 1000000 = 0
           \<and> jan15 9 1 40 - jan15 9 0 0 < 2 ^ 47 * 60000000"
    by (simp add: d)
  show ?thesis
    using emit_slot_truncates [OF a b, of 1] emit_slot_truncates [OF a b, of 2] a
    by (simp add: d jan15_whole)
qed

subsection \<open>Order, minimum duration and totality at concrete inputs\<close>

theorem find_free_slots_sorted_witness:
  "find_free_slots rfc3339_lib [ev_timed ''2024-01-15T12:00:00Z'' ''2024-01-15T13:00:00Z'']
     ''2024-01-15T09:00:00Z'' ''2024-01-15T17:00:00Z'' 30 False 9 17
   = Inr [\<lparr>slot_start = jan15 9 0 0, slot_end = jan15 12 0 0, duration_minutes = 180\<rparr>,
          \<lparr>slot_start = jan15 13 0 0, slot_end = jan15 17 0 0, duration_minutes = 240\<rparr>]
   \<and> sorted (map slot_start
        [\<lparr>slot_start = jan15 9 0 0, slot_end = jan15 12 0 0, duration_minutes = 180\<rparr>,
         \<lparr>slot_start = jan15 13 0 0, slot_end = jan15 17 0 0, duration_minutes = 240\<rparr>])"
  using find_free_slots_sorted [OF run_one_event] run_one_event by simp

theorem raising_min_duration_filters_witness:
  "(30::int) \<le> 60
   \<and> find_free_slots rfc3339_lib [ev_timed ''2024-01-15T10:00:00Z'' ''2024-01-15T10:15:00Z'']
       ''2024-01-15T09:00:00Z'' ''2024-01-15T11:00:00Z'' 60 False 9 17
     = map_result (filter (\<lambda>s. 60 \<le> duration_minutes s))
         (Inr [\<lparr>slot_start = jan15 9 0 0, slot_end = jan15 10 0 0, duration_minutes = 60\<rparr>,
               \<lparr>slot_start = jan15 10 15 0, slot_end = jan15 11 0 0, duration_minutes = 45\<rparr>])
   \<and> find_free_slots rfc3339_lib [ev_timed ''2024-01-15T10:00:00Z'' ''2024-01-15T10:15:00Z'']
       ''2024-01-15T09:00:00Z'' ''2024-01-15T11:00:00Z'' 30 False 9 17
     = Inr [\<lparr>slot_start = jan15 9 0 0, slot_end = jan15 10 0 0, duration_minutes = 60\<rparr>,
            \<lparr>slot_start = jan15 10 15 0, slot_end = jan15 11 0 0, duration_minutes = 45\<rparr>]
   \<and> list_all (\<lambda>s. 30 \<le> duration_minutes s)
         [\<lparr>slot_start = jan15 9 0 0, slot_end = jan15 10 0 0, duration_minutes = 60\<rparr>,
          \<lparr>slot_start = jan15 10 15 0, slot_end = jan15 11 0 0, duration_minutes = 45\<rparr>]"
  using raising_min_duration_filters [of 30 60 rfc3339_lib
      "[ev_timed ''2024-01-15T10:00:00Z'' ''2024-01-15T10:15:00Z'']"
      "''2024-01-15T09:00:00Z''" "''2024-01-15T11:00:00Z''" False 9 17]
    run_short_event(1)
  by simp

theorem find_free_slots_total_witness:
  "((0::int) \<le> 9 \<and> (9::int) \<le> 23) \<and> ((0::int) \<le> 17 \<and> (17::int) \<le> 23)
   \<and> (\<exists>slots. find_free_slots rfc3339_lib
          [ev_timed ''2024-01-15T12:00:00Z'' ''2024-01-15T13:00:00Z'',
           \<lparr>ev_start = Some \<lparr>dateTime = Some ''tomorrow'', date = None\<rparr>, ev_end = None\<rparr>]
          ''2024-01-15T09:00:00Z'' ''2024-01-15T17:00:00Z'' 30 True 9 17 = Inr slots)"
  using find_free_slots_total [of 9 17 rfc3339_lib
      "[ev_timed ''2024-01-15T12:00:00Z'' ''2024-01-15T13:00:00Z'',
        \<lparr>ev_start = Some \<lparr>dateTime = Some ''tomorrow'', date = None\<rparr>, ev_end = None\<rparr>]"
      "''2024-01-15T09:00:00Z''" "''2024-01-15T17:00:00Z''" 30 True]
  by simp

subsection \<open>The sweep without working hours\<close>

text \<open>
  With working hours off no iteration is left early.  Every slot then prints a gap that lies
  in the window and meets no busy period, and two overlapping events give the result of
  their union.
\<close>

lemma adjust_off [simp]: "adjust_working_hours False wsh weh gs ge = Inr (Some (gs, ge))"
  by (simp add: adjust_working_hours_def)

lemma emit_slot_gap:
  "x \<in> set (emit_slot m gs ge) \<Longrightarrow>
   slot_start x = strftime_Z gs \<and> slot_end x = strftime_Z ge \<and> gs < ge"
  by (auto simp: emit_slot_def Let_def split: if_splits)

lemma sweep_off:
  assumes "sorted (map fst bs)"
  shows "\<exists>new cur'. sweep m False wsh weh re bs free cur = Inr (free @ new, cur')
           \<and> cur \<le> cur' \<and> (\<forall>b\<in>set bs. snd b \<le> cur')
           \<and> (\<forall>x\<in>set new. \<exists>gs ge. slot_start x = strftime_Z gs \<and> slot_end x = strftime_Z ge
                  \<and> gs < ge \<and> cur \<le> gs \<and> ge \<le> re
                  \<and> (\<forall>b\<in>set bs. ge \<le> fst b \<or> snd b \<le> gs))"
  using assms
proof (induction bs arbitrary: free cur)
  case Nil
  show ?case by simp
next
  case (Cons b bs)
  obtain s1 e1 where b: "b = (s1, e1)" by (cases b)
  have later: "\<forall>c\<in>set bs. s1 \<le> fst c" and srt: "sorted (map fst bs)"
    using Cons.prems by (auto simp: b)
  define free1 where "free1 = (if s1 > cur then free @ emit_slot m cur (min s1 re) else free)"
  define first where "first = (if s1 > cur then emit_slot m cur (min s1 re) else [])"
  have free1: "free1 = free @ first" by (simp add: free1_def first_def)
  have step: "sweep m False wsh weh re (b # bs) free cur
            = sweep m False wsh weh re bs free1 (max cur e1)"
    by (simp add: b free1_def)
  obtain new1 cur' where run: "sweep m False wsh weh re bs free1 (max cur e1) = Inr (free1 @ new1, cur')"
    and mono: "max cur e1 \<le> cur'" and ends: "\<forall>c\<in>set bs. snd c \<le> cur'"
    and gaps: "\<forall>x\<in>set new1. \<exists>gs ge. slot_start x = strftime_Z gs \<and> slot_end x = strftime_Z ge
                  \<and> gs < ge \<and> max cur e1 \<le> gs \<and> ge \<le> re
                  \<and> (\<forall>c\<in>set bs. ge \<le> fst c \<or> snd c \<le> gs)"
    using Cons.IH [OF srt, of free1 "max cur e1"] by blast
  have g1: "\<exists>gs ge. slot_start x = strftime_Z gs \<and> slot_end x = strftime_Z ge
                  \<and> gs < ge \<and> cur \<le> gs \<and> ge \<le> re
                  \<and> (\<forall>c\<in>set (b # bs). ge \<le> fst c \<or> snd c \<le> gs)" if "x \<in> set first" for x
  proof -
    have x: "x \<in> set (emit_slot m cur (min s1 re))" and "s1 > cur"
      using that by (auto simp: first_def split: if_splits)
    have "\<forall>c\<in>set (b # bs). min s1 re \<le> fst c" using later by (auto simp: b)
    then show ?thesis using emit_slot_gap [OF x] by (intro exI [of _ cur] exI [of _ "min s1 re"]) auto
  qed
  have g2: "\<exists>gs ge. slot_start x = strftime_Z gs \<and> slot_end x = strftime_Z ge
                  \<and> gs < ge \<and> cur \<le> gs \<and> ge \<le> re
                  \<and> (\<forall>c\<in>set (b # bs). ge \<le> fst c \<or> snd c \<le> gs)" if xin: "x \<in> set new1" for x
  proof -
    obtain gs ge where "slot_start x = strftime_Z gs" "slot_end x = strftime_Z ge" "gs < ge"
      "max cur e1 \<le> gs" "ge \<le> re" "\<forall>c\<in>set bs. ge \<le> fst c \<or> snd c \<le> gs"
      using gaps xin by blast
    then show ?thesis by (intro exI [of _ gs] exI [of _ ge]) (auto simp: b)
  qed
  have "sweep m False wsh weh re (b # bs) free cur = Inr (free @ (first @ new1), cur')"
    using step run by (simp add: free1)
  moreover have "cur \<le> cur'" using mono by simp
  moreover have "\<forall>c\<in>set (b # bs). snd c \<le> cur'" using ends mono by (auto simp: b)
  moreover have "\<forall>x\<in>set (first @ new1). \<exists>gs ge. slot_start x = strftime_Z gs \<and> slot_end x = strftime_Z ge
                  \<and> gs < ge \<and> cur \<le> gs \<and> ge \<le> re
                  \<and> (\<forall>c\<in>set (b # bs). ge \<le> fst c \<or> snd c \<le> gs)"
    using g1 g2 by auto
  ultimately show ?case by blast
qed

lemma sorted_busy_periods: "sorted (map fst (busy_periods lib events))"
  by (simp add: busy_periods_def)

lemma slots_free_without_working_hours:
  assumes "find_free_slots lib events time_min time_max m False wsh weh = Inr slots"
    and "fromisoformat lib (replace_Z time_min) = Some range_start"
    and "fromisoformat lib (replace_Z time_max) = Some range_end"
  shows "\<forall>x\<in>set slots. \<exists>gs ge. slot_start x = strftime_Z gs \<and> slot_end x = strftime_Z ge
           \<and> gs < ge \<and> make_naive range_start \<le> gs \<and> ge \<le> make_naive range_end
           \<and> (\<forall>b\<in>set (busy_periods lib events). ge \<le> fst b \<or> snd b \<le> gs)"
proof -
  define bs where "bs = busy_periods lib events"
  obtain new cur' where run: "sweep m False wsh weh (wall range_end) bs [] (wall range_start) = Inr (new, cur')"
    and mono: "wall range_start \<le> cur'" and ends: "\<forall>b\<in>set bs. snd b \<le> cur'"
    and gaps: "\<forall>x\<in>set new. \<exists>gs ge. slot_start x = strftime_Z gs \<and> slot_end x = strftime_Z ge
                  \<and> gs < ge \<and> wall range_start \<le> gs \<and> ge \<le> wall range_end
                  \<and> (\<forall>b\<in>set bs. ge \<le> fst b \<or> snd b \<le> gs)"
    using sweep_off [of bs m wsh weh "wall range_end" "[]" "wall range_start"] sorted_busy_periods
    by (auto simp: bs_def)
  have fin: "slots = new @ (if cur' < wall range_end then emit_slot m cur' (wall range_end) else [])"
    using assms run by (simp add: find_free_slots_def final_gap_def bs_def split: if_splits)
  have "\<exists>gs ge. slot_start x = strftime_Z gs \<and> slot_end x = strftime_Z ge
           \<and> gs < ge \<and> wall range_start \<le> gs \<and> ge \<le> wall range_end
           \<and> (\<forall>b\<in>set bs. ge \<le> fst b \<or> snd b \<le> gs)"
    if "x \<in> set (emit_slot m cur' (wall range_end))" for x
    using emit_slot_gap [OF that] mono ends
    by (intro exI [of _ cur'] exI [of _ "wall range_end"]) auto
  then show ?thesis using gaps by (auto simp: fin bs_def split: if_splits)
qed

lemma overlapping_pair_without_working_hours:
  assumes "busy_period lib b1 = Some (s1, e1)" and "busy_period lib b2 = Some (s2, e2)"
    and "busy_period lib u = Some (min s1 s2, max e1 e2)"
    and "s1 \<le> e2" and "s2 \<le> e1"
  shows "find_free_slots lib [b1, b2] time_min time_max m False wsh weh
       = find_free_slots lib [u] time_min time_max m False wsh weh"
proof -
  have two: "busy_periods lib [b1, b2] = (if s1 \<le> s2 then [(s1, e1), (s2, e2)] else [(s2, e2), (s1, e1)])"
    using assms(1,2) by (simp add: busy_periods_def List.map_filter_def)
  have one: "busy_periods lib [u] = [(min s1 s2, max e1 e2)]"
    using assms(3) by (simp add: busy_periods_def List.map_filter_def)
  have eq: "sweep m False wsh weh re (busy_periods lib [b1, b2]) [] cur
      = sweep m False wsh weh re (busy_periods lib [u]) [] cur" for re cur
    using assms(4,5) unfolding two one by (auto simp: min_def max_def)
  show ?thesis unfolding find_free_slots_def eq ..
qed

subsection \<open>The cursor after a gap outside working hours\<close>

text \<open>
  A \<^verbatim>\<open>continue\<close> in the loop skips the statement that moves \<^verbatim>\<open>current_time\<close> past the
  event.  With working hours from 9 to 17 and a window from 07:00 to 17:00, an event from
  08:00 to 11:00 is preceded by the gap from 07:00 to 08:00, which ends before working
  hours: the gap is given up, the cursor stays at 07:00, and the gap after the last event
  runs from 07:00, over the event.
\<close>

lemma run_early_event:
  "busy_periods rfc3339_lib [ev_timed ''2024-01-15T08:00:00Z'' ''2024-01-15T11:00:00Z'']
   = [(jan15 8 0 0, jan15 11 0 0)]"
  "find_free_slots rfc3339_lib [ev_timed ''2024-01-15T08:00:00Z'' ''2024-01-15T11:00:00Z'']
     ''2024-01-15T07:00:00Z'' ''2024-01-15T17:00:00Z'' 30 True 9 17
   = Inr [\<lparr>slot_start = jan15 9 0 0, slot_end = jan15 17 0 0, duration_minutes = 480\<rparr>]"
  by code_simp+

lemma run_two_early_events:
  "find_free_slots rfc3339_lib
     [ev_timed ''2024-01-15T08:00:00Z'' ''2024-01-15T10:00:00Z'',
      ev_timed ''2024-01-15T09:30:00Z'' ''2024-01-15T11:00:00Z'']
     ''2024-01-15T07:00:00Z'' ''2024-01-15T17:00:00Z'' 30 True 9 17
   = Inr [\<lparr>slot_start = jan15 9 0 0, slot_end = jan15 9 30 0, duration_minutes = 30\<rparr>,
          \<lparr>slot_start = jan15 11 0 0, slot_end = jan15 17 0 0, duration_minutes = 360\<rparr>]"
  by code_simp

text \<open>
  C2, at a failing input: the events 08:00 to 10:00 and 09:30 to 11:00 overlap, their union
  is the event 08:00 to 11:00, and the two lists give different results.
\<close>

theorem overlapping_events_differ_from_union:
  "find_free_slots rfc3339_lib
     [ev_timed ''2024-01-15T08:00:00Z'' ''2024-01-15T10:00:00Z'',
      ev_timed ''2024-01-15T09:30:00Z'' ''2024-01-15T11:00:00Z'']
     ''2024-01-15T07:00:00Z'' ''2024-01-15T17:00:00Z'' 30 True 9 17
   = Inr [\<lparr>slot_start = jan15 9 0 0, slot_end = jan15 9 30 0, duration_minutes = 30\<rparr>,
          \<lparr>slot_start = jan15 11 0 0, slot_end = jan15 17 0 0, duration_minutes = 360\<rparr>]
   \<and> find_free_slots rfc3339_lib [ev_timed ''2024-01-15T08:00:00Z'' ''2024-01-15T11:00:00Z'']
       ''2024-01-15T07:00:00Z'' ''2024-01-15T17:00:00Z'' 30 True 9 17
   = Inr [\<lparr>slot_start = jan15 9 0 0, slot_end = jan15 17 0 0, duration_minutes = 480\<rparr>]"
  using run_two_early_events run_early_event(2) by simp

text \<open>
  C10, at a failing input: the only slot returned, 09:00 to 17:00, contains the two hours
  from 09:00 to 11:00 of the busy period 08:00 to 11:00.
\<close>

theorem slot_overlaps_busy_period:
  "busy_periods rfc3339_lib [ev_timed ''2024-01-15T08:00:00Z'' ''2024-01-15T11:00:00Z'']
     = [(jan15 8 0 0, jan15 11 0 0)]
   \<and> find_free_slots rfc3339_lib [ev_timed ''2024-01-15T08:00:00Z'' ''2024-01-15T11:00:00Z'']
       ''2024-01-15T07:00:00Z'' ''2024-01-15T17:00:00Z'' 30 True 9 17
     = Inr [\<lparr>slot_start = jan15 9 0 0, slot_end = jan15 17 0 0, duration_minutes = 480\<rparr>]
   \<and> jan15 8 0 0 < jan15 9 0 0 \<and> jan15 9 0 0 < jan15 11 0 0 \<and> jan15 11 0 0 < jan15 17 0 0"
  using run_early_event by (simp add: jan15_def us_hour_def)

end
